theory Spec2Isabelle
  imports Complex_Main "HOL-Library.Char_ord" "HOL-Library.List_Lexorder" "HOL-Library.Log_Nat"
begin

section \<open>Repository records and the lookup structures of the visualizer\<close>

text \<open>
  A repository record is the JSON object that \<^verbatim>\<open>GitHubGraphVisualizer.__init__\<close> loads.
  Only the keys that the graph builders read are kept: \<^verbatim>\<open>full_name\<close>, \<^verbatim>\<open>topics\<close>
  (a JSON array, hence a list: order and repetitions are visible to the code),
  \<^verbatim>\<open>activity_score\<close>, \<^verbatim>\<open>star_count\<close> and \<^verbatim>\<open>language\<close> (a string or null).
  Python numbers that are floats are modelled as exact rationals.
\<close>

record repo =
  full_name :: string
  topics :: "string list"
  activity_score :: rat
  star_count :: int
  language :: "string option"

text \<open>A Python dict keeps insertion order, so the topic index is an association list.\<close>

type_synonym topic_map = "(string \<times> string list) list"

text \<open>
  \<^verbatim>\<open>if topic not in topic_map: topic_map[topic] = []\<close> followed by
  \<^verbatim>\<open>topic_map[topic].append(name)\<close>.
\<close>

fun append_repo :: "topic_map \<Rightarrow> string \<Rightarrow> string \<Rightarrow> topic_map" where
  "append_repo [] t n = [(t, [n])]"
| "append_repo ((k, v) # m) t n =
     (if k = t then (k, v @ [n]) # m else (k, v) # append_repo m t n)"

definition add_repo_topics :: "repo \<Rightarrow> topic_map \<Rightarrow> topic_map" where
  "add_repo_topics r m = fold (\<lambda>t m'. append_repo m' t (full_name r)) (topics r) m"

definition build_topic_mapping :: "repo list \<Rightarrow> topic_map" where
  "build_topic_mapping rd = fold add_repo_topics rd []"

text \<open>\<^verbatim>\<open>topic_to_repos.get(topic, [])\<close>\<close>

definition get_repos :: "topic_map \<Rightarrow> string \<Rightarrow> string list" where
  "get_repos tm t = (case map_of tm t of None \<Rightarrow> [] | Some l \<Rightarrow> l)"

text \<open>
  \<^verbatim>\<open>{repo["full_name"]: repo for repo in self.repo_data}\<close>: a later record with the
  same name replaces an earlier one.
\<close>

definition build_repo_map :: "repo list \<Rightarrow> (string \<rightharpoonup> repo)" where
  "build_repo_map rd = map_of (rev (map (\<lambda>r. (full_name r, r)) rd))"

record visualizer =
  repo_data :: "repo list"
  repo_map :: "string \<rightharpoonup> repo"
  topic_to_repos :: topic_map

definition init :: "repo list \<Rightarrow> visualizer" where
  "init rd = \<lparr>repo_data = rd, repo_map = build_repo_map rd,
              topic_to_repos = build_topic_mapping rd\<rparr>"

datatype error = ValueError string | KeyError string

section \<open>The graph object\<close>

text \<open>
  The part of \<^verbatim>\<open>networkx.Graph\<close> that the builders use. A node has a dict of
  attributes; the four keys that occur are optional fields, and a node that
  \<^verbatim>\<open>add_edge\<close> creates has none of them. An undirected edge is stored once, under the
  orientation of its first insertion, with its \<^verbatim>\<open>weight\<close>.
\<close>

record node_attrs =
  activity :: "rat option"
  star :: "int option"
  lang :: "string option"
  level :: "nat option"

definition no_attrs :: node_attrs where
  "no_attrs = \<lparr>activity = None, star = None, lang = None, level = None\<rparr>"

text \<open>\<^verbatim>\<open>dict.update\<close>: the keys given replace the old values, the others stay.\<close>

definition merge_opt :: "'a option \<Rightarrow> 'a option \<Rightarrow> 'a option" where
  "merge_opt old new = (case new of None \<Rightarrow> old | Some v \<Rightarrow> Some v)"

definition update_attrs :: "node_attrs \<Rightarrow> node_attrs \<Rightarrow> node_attrs" where
  "update_attrs old new =
     \<lparr>activity = merge_opt (activity old) (activity new),
      star = merge_opt (star old) (star new),
      lang = merge_opt (lang old) (lang new),
      level = merge_opt (level old) (level new)\<rparr>"

record graph =
  nodes :: "(string \<times> node_attrs) list"
  edges :: "((string \<times> string) \<times> nat) list"

definition empty_graph :: graph where
  "empty_graph = \<lparr>nodes = [], edges = []\<rparr>"

fun upd_node :: "(string \<times> node_attrs) list \<Rightarrow> string \<Rightarrow> node_attrs
    \<Rightarrow> (string \<times> node_attrs) list" where
  "upd_node [] n a = [(n, a)]"
| "upd_node ((k, b) # ns) n a =
     (if k = n then (k, update_attrs b a) # ns else (k, b) # upd_node ns n a)"

definition add_node :: "graph \<Rightarrow> string \<Rightarrow> node_attrs \<Rightarrow> graph" where
  "add_node g n a = g\<lparr>nodes := upd_node (nodes g) n a\<rparr>"

fun upd_edge :: "((string \<times> string) \<times> nat) list \<Rightarrow> string \<Rightarrow> string \<Rightarrow> nat
    \<Rightarrow> ((string \<times> string) \<times> nat) list" where
  "upd_edge [] u v w = [((u, v), w)]"
| "upd_edge (((a, b), x) # es) u v w =
     (if (a = u \<and> b = v) \<or> (a = v \<and> b = u) then ((a, b), w) # es
      else ((a, b), x) # upd_edge es u v w)"

text \<open>\<^verbatim>\<open>add_edge\<close> first creates either endpoint that is not yet a node.\<close>

definition add_edge :: "graph \<Rightarrow> string \<Rightarrow> string \<Rightarrow> nat \<Rightarrow> graph" where
  "add_edge g u v w =
     \<lparr>nodes = upd_node (upd_node (nodes g) u no_attrs) v no_attrs,
      edges = upd_edge (edges g) u v w\<rparr>"

definition node_names :: "graph \<Rightarrow> string set" where
  "node_names g = fst ` set (nodes g)"

definition attrs_of :: "graph \<Rightarrow> string \<Rightarrow> node_attrs option" where
  "attrs_of g n = map_of (nodes g) n"

definition node_level :: "graph \<Rightarrow> string \<Rightarrow> nat option" where
  "node_level g n = (case map_of (nodes g) n of None \<Rightarrow> None | Some a \<Rightarrow> level a)"

definition has_edge :: "graph \<Rightarrow> string \<Rightarrow> string \<Rightarrow> bool" where
  "has_edge g u v = ((u, v) \<in> fst ` set (edges g) \<or> (v, u) \<in> fst ` set (edges g))"

text \<open>\<^verbatim>\<open>repo["language"] or "Unknown"\<close>: null and the empty string are both falsy.\<close>

definition lang_or_unknown :: "string option \<Rightarrow> string" where
  "lang_or_unknown l = (case l of None \<Rightarrow> ''Unknown'' | Some s \<Rightarrow> if s = [] then ''Unknown'' else s)"

section \<open>The activity score\<close>

text \<open>
  \<^verbatim>\<open>calculate_activity_score\<close> of \<^verbatim>\<open>github_utils.py\<close>. The argument is a dict of
  Python integers, read with \<^verbatim>\<open>.get(key, 0)\<close>.

  A Python float is an IEEE 754 binary64 number. A finite one is given by its exact
  value, a rational; the sign of a zero is not kept, since \<^verbatim>\<open>==\<close> does not see it.
\<close>

datatype double = Finite rat | PosInf | NegInf | NaN

text \<open>The values of the computation: Python integers and floats.\<close>

datatype pyval = PyInt int | PyFloat double

datatype arith_error = OverflowError | ZeroDivisionError

text \<open>Rounding to the nearest integer, ties to the even one.\<close>

definition round_half_even :: "rat \<Rightarrow> int" where
  "round_half_even y =
     (let f = \<lfloor>y\<rfloor>; d = y - of_int f
      in if d < 1 / 2 then f else if 1 / 2 < d then f + 1
         else if even f then f else f + 1)"

text \<open>
  The exponent \<open>e\<close> of a positive rational: \<open>2 powi e \<le> x < 2 powi (e + 1)\<close>.
\<close>

definition binade :: "rat \<Rightarrow> int" where
  "binade x = (if 1 \<le> x then bitlen \<lfloor>x\<rfloor> - 1 else - bitlen (\<lceil>1 / x\<rceil> - 1))"

text \<open>
  Rounding to binary64 with an unbounded exponent above: 53 significant bits, nearest,
  ties to even; below \<open>2 powi (-1022)\<close> the spacing stays \<open>2 powi (-1074)\<close>.
\<close>

definition ulp :: "rat \<Rightarrow> rat" where
  "ulp x = 2 powi (max (binade \<bar>x\<bar>) (- 1022) - 52)"

definition fl :: "rat \<Rightarrow> rat" where
  "fl x = (if x = 0 then 0 else of_int (round_half_even (x / ulp x)) * ulp x)"

text \<open>
  The largest double is \<open>2 ^ 1024 - 2 ^ 971\<close>. An exact result of magnitude
  \<open>2 ^ 1024 - 2 ^ 970\<close> or more rounds beyond it.
\<close>

definition overflow_threshold :: rat where
  "overflow_threshold = 2 ^ 1024 - 2 ^ 970"

definition overflows :: "rat \<Rightarrow> bool" where
  "overflows x \<longleftrightarrow> overflow_threshold \<le> \<bar>x\<bar>"

text \<open>The result of a float operation whose exact result is \<open>x\<close>.\<close>

definition round_double :: "rat \<Rightarrow> double" where
  "round_double x = (if overflows x then (if 0 < x then PosInf else NegInf) else Finite (fl x))"

text \<open>
  \<^verbatim>\<open>a / b\<close> on two Python integers: the quotient correctly rounded, \<^verbatim>\<open>OverflowError\<close>
  when it is too large for a float.
\<close>

definition int_truediv :: "int \<Rightarrow> int \<Rightarrow> arith_error + pyval" where
  "int_truediv a b =
     (if b = 0 then Inl ZeroDivisionError
      else if overflows (of_int a / of_int b) then Inl OverflowError
      else Inr (PyFloat (Finite (fl (of_int a / of_int b)))))"

text \<open>The conversion of an integer operand of a mixed operation.\<close>

definition int_to_double :: "int \<Rightarrow> arith_error + double" where
  "int_to_double n = (if overflows (of_int n) then Inl OverflowError else Inr (Finite (fl (of_int n))))"

definition to_double :: "pyval \<Rightarrow> arith_error + double" where
  "to_double v = (case v of PyInt n \<Rightarrow> int_to_double n | PyFloat x \<Rightarrow> Inr x)"

fun double_less :: "double \<Rightarrow> double \<Rightarrow> bool" where
  "double_less NaN _ = False"
| "double_less _ NaN = False"
| "double_less (Finite x) (Finite y) = (x < y)"
| "double_less NegInf NegInf = False"
| "double_less NegInf _ = True"
| "double_less _ NegInf = False"
| "double_less PosInf _ = False"
| "double_less _ PosInf = True"

text \<open>\<^verbatim>\<open><\<close>: an integer and a float are compared by their exact values.\<close>

fun py_less :: "pyval \<Rightarrow> pyval \<Rightarrow> bool" where
  "py_less (PyInt a) (PyInt b) = (a < b)"
| "py_less (PyInt a) (PyFloat y) = double_less (Finite (of_int a)) y"
| "py_less (PyFloat x) (PyInt b) = double_less x (Finite (of_int b))"
| "py_less (PyFloat x) (PyFloat y) = double_less x y"

text \<open>
  \<^verbatim>\<open>min(a, b)\<close> and \<^verbatim>\<open>max(a, b)\<close> keep the first argument unless the second is strictly
  smaller, respectively larger; the value keeps its type.
\<close>

definition py_min :: "pyval \<Rightarrow> pyval \<Rightarrow> pyval" where
  "py_min a b = (if py_less b a then b else a)"

definition py_max :: "pyval \<Rightarrow> pyval \<Rightarrow> pyval" where
  "py_max a b = (if py_less a b then b else a)"

fun double_mul :: "double \<Rightarrow> double \<Rightarrow> double" where
  "double_mul (Finite x) (Finite y) = round_double (x * y)"
| "double_mul NaN _ = NaN"
| "double_mul _ NaN = NaN"
| "double_mul (Finite x) PosInf = (if x = 0 then NaN else if 0 < x then PosInf else NegInf)"
| "double_mul (Finite x) NegInf = (if x = 0 then NaN else if 0 < x then NegInf else PosInf)"
| "double_mul PosInf (Finite y) = (if y = 0 then NaN else if 0 < y then PosInf else NegInf)"
| "double_mul NegInf (Finite y) = (if y = 0 then NaN else if 0 < y then NegInf else PosInf)"
| "double_mul PosInf PosInf = PosInf"
| "double_mul PosInf NegInf = NegInf"
| "double_mul NegInf PosInf = NegInf"
| "double_mul NegInf NegInf = PosInf"

fun double_add :: "double \<Rightarrow> double \<Rightarrow> double" where
  "double_add (Finite x) (Finite y) = round_double (x + y)"
| "double_add NaN _ = NaN"
| "double_add _ NaN = NaN"
| "double_add PosInf NegInf = NaN"
| "double_add NegInf PosInf = NaN"
| "double_add PosInf _ = PosInf"
| "double_add NegInf _ = NegInf"
| "double_add _ PosInf = PosInf"
| "double_add _ NegInf = NegInf"

text \<open>
  \<^verbatim>\<open>*\<close> and \<^verbatim>\<open>+\<close>: exact on two integers; otherwise the integer operand is converted
  and the operation is the one of the floats.
\<close>

definition float_op :: "(double \<Rightarrow> double \<Rightarrow> double) \<Rightarrow> pyval \<Rightarrow> pyval \<Rightarrow> arith_error + pyval" where
  "float_op f a b =
     (case to_double a of Inl e \<Rightarrow> Inl e
      | Inr x \<Rightarrow> (case to_double b of Inl e \<Rightarrow> Inl e
                 | Inr y \<Rightarrow> Inr (PyFloat (f x y))))"

fun py_mul :: "pyval \<Rightarrow> pyval \<Rightarrow> arith_error + pyval" where
  "py_mul (PyInt a) (PyInt b) = Inr (PyInt (a * b))"
| "py_mul a b = float_op double_mul a b"

fun py_add :: "pyval \<Rightarrow> pyval \<Rightarrow> arith_error + pyval" where
  "py_add (PyInt a) (PyInt b) = Inr (PyInt (a + b))"
| "py_add a b = float_op double_add a b"

text \<open>
  \<^verbatim>\<open>round(x, 2)\<close>: an integer is returned as it is, and so is a float that is not
  finite; a finite float is rounded to the nearest hundredth, ties to even, and that
  decimal is converted to the nearest double.
\<close>

fun py_round2 :: "pyval \<Rightarrow> arith_error + pyval" where
  "py_round2 (PyInt n) = Inr (PyInt n)"
| "py_round2 (PyFloat (Finite x)) =
     (let y = of_int (round_half_even (x * 100)) / 100
      in if overflows y then Inl OverflowError else Inr (PyFloat (Finite (fl y))))"
| "py_round2 (PyFloat x) = Inr (PyFloat x)"

definition get0 :: "(string \<rightharpoonup> int) \<Rightarrow> string \<Rightarrow> int" where
  "get0 d k = (case d k of None \<Rightarrow> 0 | Some v \<Rightarrow> v)"

definition and_then :: "arith_error + 'a \<Rightarrow> ('a \<Rightarrow> arith_error + 'b) \<Rightarrow> arith_error + 'b" where
  "and_then r f = (case r of Inl e \<Rightarrow> Inl e | Inr v \<Rightarrow> f v)"

text \<open>\<^verbatim>\<open>min(n / d, 1) * w\<close>.\<close>

definition capped_score :: "int \<Rightarrow> int \<Rightarrow> int \<Rightarrow> arith_error + pyval" where
  "capped_score n d w = and_then (int_truediv n d) (\<lambda>q. py_mul (py_min q (PyInt 1)) (PyInt w))"

text \<open>\<^verbatim>\<open>min(max(n / d, 0), 1) * w\<close>.\<close>

definition capped_score0 :: "int \<Rightarrow> int \<Rightarrow> int \<Rightarrow> arith_error + pyval" where
  "capped_score0 n d w =
     and_then (int_truediv n d) (\<lambda>q. py_mul (py_min (py_max q (PyInt 0)) (PyInt 1)) (PyInt w))"

definition calculate_activity_score :: "(string \<rightharpoonup> int) \<Rightarrow> arith_error + pyval" where
  "calculate_activity_score activity_data =
     (let commits = get0 activity_data ''commits_total'';
          prs_merged = get0 activity_data ''prs_merged'';
          issues_resolved = get0 activity_data ''issues_closed'' - get0 activity_data ''issues_open'';
          contributors = get0 activity_data ''contributors_total''
      in and_then (capped_score commits 1000 40) (\<lambda>commits_score.
         and_then (capped_score prs_merged 100 20) (\<lambda>prs_score.
         and_then (capped_score0 issues_resolved 50 20) (\<lambda>issues_score.
         and_then (capped_score contributors 100 20) (\<lambda>contributors_score.
         and_then (py_add commits_score prs_score) (\<lambda>s1.
         and_then (py_add s1 issues_score) (\<lambda>s2.
         and_then (py_add s2 contributors_score) py_round2)))))))"

section \<open>The global graph\<close>

text \<open>
  \<^verbatim>\<open>_build_full_graph\<close>. The loop state is the graph, the set \<^verbatim>\<open>added_edges\<close> (a list
  in insertion order) and \<^verbatim>\<open>edge_count\<close>. The field \<open>evaluated\<close> is a ghost log, absent
  from the source: it records, with the topic at hand, every pair for which the lines
  that compute \<^verbatim>\<open>shared\<close> are executed.
\<close>

definition max_edges :: nat where
  "max_edges = 1000"

record full_state =
  G :: graph
  added_edges :: "(string \<times> string) list"
  edge_count :: nat
  evaluated :: "(string \<times> string \<times> string) list"

text \<open>\<^verbatim>\<open>tuple(sorted([r1, r2]))\<close>, strings compared lexicographically.\<close>

definition edge_key :: "string \<Rightarrow> string \<Rightarrow> string \<times> string" where
  "edge_key r1 r2 = (if r2 < r1 then (r2, r1) else (r1, r2))"

text \<open>\<^verbatim>\<open>len(set(a["topics"]) & set(b["topics"]))\<close>\<close>

definition shared_topics :: "repo \<Rightarrow> repo \<Rightarrow> nat" where
  "shared_topics a b = card (set (topics a) \<inter> set (topics b))"

definition full_attrs :: "repo \<Rightarrow> node_attrs" where
  "full_attrs r = \<lparr>activity = Some (activity_score r), star = Some (star_count r),
                    lang = Some (lang_or_unknown (language r)), level = None\<rparr>"

text \<open>The body of the innermost loop, after the test of the cap.\<close>

definition try_pair :: "(string \<rightharpoonup> repo) \<Rightarrow> string \<Rightarrow> string \<Rightarrow> string \<Rightarrow> full_state
    \<Rightarrow> error + full_state" where
  "try_pair rm topic r1 r2 s =
     (let k = edge_key r1 r2 in
      if k \<in> set (added_edges s) then Inr s
      else case rm r1 of
             None \<Rightarrow> Inl (KeyError r1)
           | Some a \<Rightarrow>
              (case rm r2 of
                 None \<Rightarrow> Inl (KeyError r2)
               | Some b \<Rightarrow>
                  (let shared = shared_topics a b;
                       s1 = s\<lparr>evaluated := evaluated s @ [(topic, k)]\<rparr>
                   in if 2 \<le> shared
                      then Inr (s1\<lparr>G := add_edge (G s1) r1 r2 shared,
                                  added_edges := added_edges s1 @ [k],
                                  edge_count := edge_count s1 + 1\<rparr>)
                      else Inr s1)))"

text \<open>
  \<^verbatim>\<open>for j in range(i+1, len(repos))\<close>: \<open>r1\<close> is \<^verbatim>\<open>repos[i]\<close> and the list holds
  \<^verbatim>\<open>repos[i+1:]\<close>. The loop breaks once the cap is reached.
\<close>

fun inner_loop :: "(string \<rightharpoonup> repo) \<Rightarrow> string \<Rightarrow> string \<Rightarrow> string list \<Rightarrow> full_state
    \<Rightarrow> error + full_state" where
  "inner_loop rm topic r1 [] s = Inr s"
| "inner_loop rm topic r1 (r2 # rest) s =
     (if max_edges \<le> edge_count s then Inr s
      else case try_pair rm topic r1 r2 s of
             Inl e \<Rightarrow> Inl e
           | Inr s' \<Rightarrow> inner_loop rm topic r1 rest s')"

text \<open>
  \<^verbatim>\<open>for i in range(len(repos))\<close>, with the second test of the cap after the inner loop.
\<close>

fun outer_loop :: "(string \<rightharpoonup> repo) \<Rightarrow> string \<Rightarrow> string list \<Rightarrow> full_state
    \<Rightarrow> error + full_state" where
  "outer_loop rm topic [] s = Inr s"
| "outer_loop rm topic (r1 # rest) s =
     (case inner_loop rm topic r1 rest s of
        Inl e \<Rightarrow> Inl e
      | Inr s' \<Rightarrow> if max_edges \<le> edge_count s' then Inr s' else outer_loop rm topic rest s')"

text \<open>
  \<^verbatim>\<open>for topic, repos in self.topic_to_repos.items()\<close>; nothing leaves this loop early.
\<close>

fun topic_loop :: "(string \<rightharpoonup> repo) \<Rightarrow> topic_map \<Rightarrow> full_state \<Rightarrow> error + full_state" where
  "topic_loop rm [] s = Inr s"
| "topic_loop rm ((topic, repos) # tm) s =
     (let repos' = (if 8 < length repos then take 8 repos else repos)
      in case outer_loop rm topic repos' s of
           Inl e \<Rightarrow> Inl e
         | Inr s' \<Rightarrow> topic_loop rm tm s')"

definition add_all_nodes :: "repo list \<Rightarrow> graph" where
  "add_all_nodes rd = fold (\<lambda>r g. add_node g (full_name r) (full_attrs r)) rd empty_graph"

definition build_full_state :: "visualizer \<Rightarrow> error + full_state" where
  "build_full_state vis =
     topic_loop (repo_map vis) (topic_to_repos vis)
       \<lparr>G = add_all_nodes (repo_data vis), added_edges = [], edge_count = 0, evaluated = []\<rparr>"

definition build_full_graph :: "visualizer \<Rightarrow> error + graph" where
  "build_full_graph vis = (case build_full_state vis of Inl e \<Rightarrow> Inl e | Inr s \<Rightarrow> Inr (G s))"

section \<open>The ego network\<close>

text \<open>
  \<^verbatim>\<open>_build_4level_graph\<close>. The Python sets \<^verbatim>\<open>visited\<close>, \<^verbatim>\<open>current_level\<close> and
  \<^verbatim>\<open>next_level\<close> are lists without repetition, in insertion order. The order in which
  \<^verbatim>\<open>for repo_name in current_level\<close> enumerates a set is not fixed by the language, so
  it is a parameter \<open>enum\<close> of the model.
\<close>

definition levels :: nat where
  "levels = 4"

definition max_nodes :: nat where
  "max_nodes = 150"

definition set_add :: "string \<Rightarrow> string list \<Rightarrow> string list" where
  "set_add x xs = (if x \<in> set xs then xs else xs @ [x])"

record ego_state =
  eG :: graph
  visited :: "string list"
  next_level :: "string list"

definition ego_attrs :: "repo \<Rightarrow> nat \<Rightarrow> node_attrs" where
  "ego_attrs r lvl = \<lparr>activity = Some (activity_score r), star = Some (star_count r),
                       lang = Some (lang_or_unknown (language r)), level = Some lvl\<rparr>"

text \<open>\<^verbatim>\<open>for rr in related_repos\<close>\<close>

definition try_candidate :: "string \<Rightarrow> string \<Rightarrow> ego_state \<Rightarrow> ego_state" where
  "try_candidate repo_name rr s =
     (if rr \<notin> set (visited s) \<and> length (visited s) < max_nodes
      then s\<lparr>next_level := set_add rr (next_level s),
              eG := add_edge (eG s) repo_name rr 1\<rparr>
      else s)"

text \<open>\<^verbatim>\<open>for topic in repo["topics"][:5]\<close>\<close>

definition expand_topic :: "topic_map \<Rightarrow> string \<Rightarrow> string \<Rightarrow> ego_state \<Rightarrow> ego_state" where
  "expand_topic tm repo_name topic s = fold (try_candidate repo_name) (take 5 (get_repos tm topic)) s"

definition expand_repo :: "topic_map \<Rightarrow> string \<Rightarrow> repo \<Rightarrow> ego_state \<Rightarrow> ego_state" where
  "expand_repo tm repo_name r s = fold (expand_topic tm repo_name) (take 5 (topics r)) s"

text \<open>\<^verbatim>\<open>for repo_name in current_level\<close>, at the level \<open>lvl\<close>.\<close>

fun visit_loop :: "visualizer \<Rightarrow> nat \<Rightarrow> string list \<Rightarrow> ego_state \<Rightarrow> error + ego_state" where
  "visit_loop vis lvl [] s = Inr s"
| "visit_loop vis lvl (repo_name # rest) s =
     (if repo_name \<in> set (visited s) then visit_loop vis lvl rest s
      else let s1 = s\<lparr>visited := set_add repo_name (visited s)\<rparr>
           in case repo_map vis repo_name of
                None \<Rightarrow> Inl (KeyError repo_name)
              | Some r \<Rightarrow>
                  visit_loop vis lvl rest
                    (expand_repo (topic_to_repos vis) repo_name r
                       (s1\<lparr>eG := add_node (eG s1) repo_name (ego_attrs r lvl)\<rparr>)))"

text \<open>
  \<^verbatim>\<open>for level in range(levels + 1)\<close>: the list holds the levels still to run, the
  third argument is \<^verbatim>\<open>current_level\<close>, the pair is the graph and \<^verbatim>\<open>visited\<close>.
\<close>

fun level_loop :: "(string list \<Rightarrow> string list) \<Rightarrow> visualizer \<Rightarrow> nat list \<Rightarrow> string list
    \<Rightarrow> graph \<times> string list \<Rightarrow> error + graph \<times> string list" where
  "level_loop enum vis [] cur gv = Inr gv"
| "level_loop enum vis (lvl # lvls) cur (g, vs) =
     (if cur = [] \<or> max_nodes \<le> length vs then Inr (g, vs)
      else case visit_loop vis lvl (enum cur) \<lparr>eG = g, visited = vs, next_level = []\<rparr> of
             Inl e \<Rightarrow> Inl e
           | Inr s \<Rightarrow> level_loop enum vis lvls (next_level s) (eG s, visited s))"

definition not_found_message :: "string \<Rightarrow> string" where
  "not_found_message start_repo =
     [CHR 0xE4, CHR 0xBB, CHR 0x93, CHR 0xE5, CHR 0xBA, CHR 0x93, CHR 0x20] @ start_repo @
     [CHR 0x20, CHR 0xE4, CHR 0xB8, CHR 0x8D, CHR 0xE5, CHR 0xAD, CHR 0x98,
      CHR 0xE5, CHR 0x9C, CHR 0xA8, CHR 0xEF, CHR 0xBC, CHR 0x81]"

text \<open>
  The traversal with its final \<^verbatim>\<open>visited\<close> set, which the method itself drops.
\<close>

definition ego_traverse :: "(string list \<Rightarrow> string list) \<Rightarrow> visualizer \<Rightarrow> string
    \<Rightarrow> error + graph \<times> string list" where
  "ego_traverse enum vis start_repo =
     (if repo_map vis start_repo = None then Inl (ValueError (not_found_message start_repo))
      else level_loop enum vis [0..<levels + 1] [start_repo] (empty_graph, []))"

text \<open>
  The method reads \<^verbatim>\<open>self\<close> and assigns to none of its fields; the second component of
  the result is the object after the call.
\<close>

definition build_4level_graph :: "(string list \<Rightarrow> string list) \<Rightarrow> visualizer \<Rightarrow> string
    \<Rightarrow> (error + graph) \<times> visualizer" where
  "build_4level_graph enum vis start_repo =
     (case ego_traverse enum vis start_repo of
        Inl e \<Rightarrow> (Inl e, vis)
      | Inr (g, vs) \<Rightarrow> (Inr g, vis))"

section \<open>Definitions used by the statements\<close>


text \<open>The number that a value stands for, when it is an integer or a finite float.\<close>

fun is_number :: "pyval \<Rightarrow> bool" where
  "is_number (PyInt n) = True"
| "is_number (PyFloat (Finite x)) = True"
| "is_number (PyFloat _) = False"

fun num :: "pyval \<Rightarrow> rat" where
  "num (PyInt n) = of_int n"
| "num (PyFloat (Finite x)) = x"
| "num (PyFloat _) = 0"




text \<open>A record with the defaults that the statements do not depend on.\<close>

definition mk_repo :: "string \<Rightarrow> string list \<Rightarrow> repo" where
  "mk_repo n ts = \<lparr>full_name = n, topics = ts, activity_score = 0, star_count = 0,
                    language = None\<rparr>"

text \<open>A record whose topic array names one topic twice.\<close>

definition dup_repo :: repo where
  "dup_repo = mk_repo ''o/A'' [''x'', ''x'']"

text \<open>
  The three parts of "undirected simple graph": no edge from a node to itself, at most
  one stored edge for an unordered pair of endpoints, and both endpoints of every edge
  among the nodes.
\<close>

definition edge_ends :: "(string \<times> string) \<times> nat \<Rightarrow> string set" where
  "edge_ends e = {fst (fst e), snd (fst e)}"

definition no_self_loops :: "graph \<Rightarrow> bool" where
  "no_self_loops g = (\<forall>e\<in>set (edges g). fst (fst e) \<noteq> snd (fst e))"

definition single_edges :: "graph \<Rightarrow> bool" where
  "single_edges g = distinct (map edge_ends (edges g))"

definition closed_edges :: "graph \<Rightarrow> bool" where
  "closed_edges g =
     (\<forall>e\<in>set (edges g). fst (fst e) \<in> node_names g \<and> snd (fst e) \<in> node_names g)"

text \<open>
  The pairs \<^verbatim>\<open>(repos[i], repos[j])\<close> with \<^verbatim>\<open>i < j\<close>, in the order in which the two nested
  loops of \<^verbatim>\<open>_build_full_graph\<close> reach them.
\<close>

fun pairs :: "'a list \<Rightarrow> ('a \<times> 'a) list" where
  "pairs [] = []"
| "pairs (x # xs) = map (Pair x) xs @ pairs xs"

text \<open>
  Every edge has a weight of at least 2, which is the number of topics that the records
  of its two endpoints have in common.
\<close>

definition edges_weighed :: "(string \<rightharpoonup> repo) \<Rightarrow> graph \<Rightarrow> bool" where
  "edges_weighed rm g =
     (\<forall>e\<in>set (edges g). 2 \<le> snd e \<and>
        (\<exists>a b. rm (fst (fst e)) = Some a \<and> rm (snd (fst e)) = Some b
               \<and> snd e = card (set (topics a) \<inter> set (topics b))))"

text \<open>
  The number of topics that the records of the two components of a key have in common,
  0 when either is not in the repository map.
\<close>

definition key_shared :: "(string \<rightharpoonup> repo) \<Rightarrow> string \<times> string \<Rightarrow> nat" where
  "key_shared rm k =
     (case rm (fst k) of
        None \<Rightarrow> 0
      | Some a \<Rightarrow> (case rm (snd k) of None \<Rightarrow> 0 | Some b \<Rightarrow> shared_topics a b))"

text \<open>
  The invariant of the loops of \<^verbatim>\<open>_build_full_graph\<close>: the weights, the shape of the
  edge list, the counter, the relation between \<^verbatim>\<open>added_edges\<close> and the log of evaluated
  pairs, and where the evaluated pairs come from.
\<close>

definition full_inv :: "(string \<rightharpoonup> repo) \<Rightarrow> topic_map \<Rightarrow> full_state \<Rightarrow> bool" where
  "full_inv rm tm s \<longleftrightarrow>
     edges_weighed rm (G s) \<and> single_edges (G s) \<and> closed_edges (G s)
     \<and> length (edges (G s)) \<le> edge_count s \<and> edge_count s \<le> max_edges
     \<and> added_edges s = map snd (filter (\<lambda>e. 2 \<le> key_shared rm (snd e)) (evaluated s))
     \<and> distinct (added_edges s) \<and> length (added_edges s) = edge_count s
     \<and> (\<forall>k\<in>set (added_edges s). has_edge (G s) (fst k) (snd k))
     \<and> (\<forall>e\<in>set (evaluated s). \<exists>l r1 r2. (fst e, l) \<in> set tm
            \<and> (r1, r2) \<in> set (pairs (take 8 l)) \<and> snd e = edge_key r1 r2)"

text \<open>
  The scenario of the specification: A and B share the topics x and y, A and C share
  only x.
\<close>

definition abc_repos :: "repo list" where
  "abc_repos = [mk_repo ''o/A'' [''x'', ''y''], mk_repo ''o/B'' [''x'', ''y''],
     mk_repo ''o/C'' [''x'']]"

text \<open>Two records with a single topic in common.\<close>

definition single_topic_pair :: "repo list" where
  "single_topic_pair = [mk_repo ''o/A'' [''x''], mk_repo ''o/B'' [''x'']]"

text \<open>
  A chain of six records: each shares one topic with the next, so the last one is five
  steps away from the first.
\<close>

definition chain_repos :: "repo list" where
  "chain_repos = [mk_repo ''o/S'' [''t0''], mk_repo ''o/A1'' [''t0'', ''t1''],
     mk_repo ''o/A2'' [''t1'', ''t2''], mk_repo ''o/A3'' [''t2'', ''t3''],
     mk_repo ''o/A4'' [''t3'', ''t4''], mk_repo ''o/A5'' [''t4'']]"

text \<open>
  The invariant of the traversal during the round of level \<open>lvl\<close>: \<^verbatim>\<open>visited\<close> has no
  repetition and holds exactly the nodes that carry a level; no level exceeds \<open>lvl\<close>; a
  node of level \<open>L + 1\<close> has an edge to a node of level \<open>L\<close>; every member of
  \<^verbatim>\<open>next_level\<close> has an edge to a node of level \<open>lvl\<close>; the graph is simple.
\<close>

definition ego_inv :: "nat \<Rightarrow> ego_state \<Rightarrow> bool" where
  "ego_inv lvl s \<longleftrightarrow>
     distinct (visited s)
     \<and> (\<forall>n. n \<in> set (visited s) \<longleftrightarrow> node_level (eG s) n \<noteq> None)
     \<and> (\<forall>n L. node_level (eG s) n = Some L \<longrightarrow> L \<le> lvl)
     \<and> (\<forall>n L. node_level (eG s) n = Some (Suc L)
           \<longrightarrow> (\<exists>m. has_edge (eG s) n m \<and> node_level (eG s) m = Some L))
     \<and> (\<forall>rr\<in>set (next_level s). \<exists>p. has_edge (eG s) p rr \<and> node_level (eG s) p = Some lvl)
     \<and> no_self_loops (eG s) \<and> single_edges (eG s) \<and> closed_edges (eG s)"

text \<open>
  What is known of the members of \<^verbatim>\<open>current_level\<close> that the round has still to
  reach: each is finalized already, or was discovered from a node of the level before.
\<close>

definition pending :: "nat \<Rightarrow> string list \<Rightarrow> ego_state \<Rightarrow> bool" where
  "pending lvl rest s \<longleftrightarrow>
     (\<forall>n\<in>set rest. n \<in> set (visited s) \<or> lvl = 0
        \<or> (\<exists>p. has_edge (eG s) p n \<and> node_level (eG s) p = Some (lvl - 1)))"

text \<open>Levels once set stay, edges stay, and \<^verbatim>\<open>visited\<close> only grows.\<close>

definition grows :: "ego_state \<Rightarrow> ego_state \<Rightarrow> bool" where
  "grows s s' \<longleftrightarrow>
     (\<forall>n L. node_level (eG s) n = Some L \<longrightarrow> node_level (eG s') n = Some L)
     \<and> (\<forall>a b. has_edge (eG s) a b \<longrightarrow> has_edge (eG s') a b)
     \<and> set (visited s) \<subseteq> set (visited s')"

text \<open>Every name in the topic index, and every name of a list, is a key of the repository map.\<close>

definition index_ok :: "visualizer \<Rightarrow> bool" where
  "index_ok vis \<longleftrightarrow> (\<forall>t. \<forall>n\<in>set (get_repos (topic_to_repos vis) t). repo_map vis n \<noteq> None)"

definition names_ok :: "visualizer \<Rightarrow> string list \<Rightarrow> bool" where
  "names_ok vis xs \<longleftrightarrow> (\<forall>n\<in>set xs. repo_map vis n \<noteq> None)"

text \<open>A record with two topics, one of them named twice.\<close>

definition loop_repo :: repo where
  "loop_repo = mk_repo ''o/A'' [''x'', ''x'', ''y'']"

text \<open>
  The traversal without its graph: what a round does to \<^verbatim>\<open>visited\<close> and
  \<^verbatim>\<open>next_level\<close>, which never depends on the graph. It is used to evaluate the first two
  rounds on a large input.
\<close>

definition try_candidate_core :: "string \<Rightarrow> string list \<times> string list \<Rightarrow> string list \<times> string list" where
  "try_candidate_core rr vn =
     (if rr \<notin> set (fst vn) \<and> length (fst vn) < max_nodes
      then (fst vn, set_add rr (snd vn)) else vn)"

definition expand_core :: "topic_map \<Rightarrow> repo \<Rightarrow> string list \<times> string list
    \<Rightarrow> string list \<times> string list" where
  "expand_core tm r vn =
     fold (\<lambda>topic. fold try_candidate_core (take 5 (get_repos tm topic))) (take 5 (topics r)) vn"

fun visit_core :: "visualizer \<Rightarrow> string list \<Rightarrow> string list \<times> string list
    \<Rightarrow> (string list \<times> string list) option" where
  "visit_core vis [] vn = Some vn"
| "visit_core vis (rn # rest) vn =
     (if rn \<in> set (fst vn) then visit_core vis rest vn
      else case repo_map vis rn of
             None \<Rightarrow> None
           | Some r \<Rightarrow> visit_core vis rest
                        (expand_core (topic_to_repos vis) r (set_add rn (fst vn), snd vn)))"

text \<open>
  An input of 151 records: 125 records with one topic each, five to a topic; 25 records
  that each carry one of those 25 topics first and one of five further topics second;
  and last the seed, which carries the five further topics. Each topic lists the
  records that come first among its first five entries.
\<close>

definition dg :: "nat \<Rightarrow> char" where
  "dg i = char_of (48 + i)"

definition leaf_repo :: "nat \<Rightarrow> nat \<Rightarrow> nat \<Rightarrow> repo" where
  "leaf_repo i k m = mk_repo ([char_of (65 + 5 * k + m), dg i] @ ''/l'') [[dg k, dg i, CHR ''b'']]"

definition mid_repo :: "nat \<Rightarrow> nat \<Rightarrow> repo" where
  "mid_repo i k = mk_repo ([char_of (97 + 5 * i + k)] @ ''/m'') [[dg k, dg i, CHR ''b''], [dg i, CHR ''a'']]"

definition seed_repo :: repo where
  "seed_repo = mk_repo ''z/s'' (map (\<lambda>i. [dg i, CHR ''a'']) [0..<5])"

definition wide_repos :: "repo list" where
  "wide_repos =
     concat (map (\<lambda>i. concat (map (\<lambda>k. map (leaf_repo i k) [0..<5]) [0..<5])) [0..<5])
     @ concat (map (\<lambda>i. map (mid_repo i) [0..<5]) [0..<5]) @ [seed_repo]"

text \<open>The rounds of level 0 and of level 1 on that input.\<close>

definition two_rounds_core :: "(string list \<times> string list) option" where
  "two_rounds_core =
     (let vis = init wide_repos in
      case visit_core vis [''z/s''] ([], []) of
        None \<Rightarrow> None
      | Some vn0 \<Rightarrow>
          if snd vn0 = [] \<or> max_nodes \<le> length (fst vn0) then None
          else visit_core vis (snd vn0) (fst vn0, []))"

definition frontier_of :: "ego_state \<Rightarrow> string list \<times> string list" where
  "frontier_of s = (visited s, next_level s)"

text \<open>
  The unordered pairs of different records that have two topics or more in common.
\<close>

definition sharing_pairs :: "repo list \<Rightarrow> repo set set" where
  "sharing_pairs rd =
     {{a, b} | a b. a \<in> set rd \<and> b \<in> set rd \<and> a \<noteq> b \<and> 2 \<le> shared_topics a b}"

text \<open>
  A pair is covered in a state of the loops when its key is recorded, or it has been
  evaluated, or the cap has been reached.
\<close>

definition covered :: "full_state \<Rightarrow> string \<times> string \<Rightarrow> bool" where
  "covered s p \<longleftrightarrow>
     edge_key (fst p) (snd p) \<in> set (added_edges s)
     \<or> edge_key (fst p) (snd p) \<in> snd ` set (evaluated s)
     \<or> max_edges \<le> edge_count s"

text \<open>The sets and the counter of the loops only grow.\<close>

definition later :: "full_state \<Rightarrow> full_state \<Rightarrow> bool" where
  "later s s' \<longleftrightarrow>
     set (added_edges s) \<subseteq> set (added_edges s') \<and> set (evaluated s) \<subseteq> set (evaluated s')
     \<and> edge_count s \<le> edge_count s'"

text \<open>
  An input of 501 records for the cap of the global graph: the record that names a
  topic twice comes first; the 500 others form 100 groups of 5, the records of a group
  naming the same two topics, which no other group names.
\<close>

definition member_name :: "nat \<Rightarrow> string" where
  "member_name i = ''o/'' @ replicate i (CHR ''n'')"

definition group_topics :: "nat \<Rightarrow> string list" where
  "group_topics g = [CHR ''a'' # replicate g (CHR ''t''), CHR ''b'' # replicate g (CHR ''t'')]"

definition member_repo :: "nat \<Rightarrow> repo" where
  "member_repo i = mk_repo (member_name i) (group_topics (i div 5))"

definition member_count :: nat where
  "member_count = 500"

definition capped_repos :: "repo list" where
  "capped_repos = loop_repo # map member_repo [0..<member_count]"

definition group_pairs :: "(nat \<times> nat \<times> nat) set" where
  "group_pairs = {0..<100} \<times> set (pairs [0..<5])"

section \<open>Properties of the lookup structures\<close>

lemma build_repo_map_None: "build_repo_map rd n = None \<longleftrightarrow> n \<notin> full_name ` set rd"
  by (simp add: build_repo_map_def map_of_eq_None_iff image_image)

lemma get_repos_append_repo:
  "get_repos (append_repo m t n) t' = (if t' = t then get_repos m t @ [n] else get_repos m t')"
  by (induction m t n rule: append_repo.induct) (auto simp: get_repos_def)

lemma get_repos_add_topics:
  "get_repos (fold (\<lambda>t m'. append_repo m' t nm) ts m) t'
     = get_repos m t' @ replicate (count_list ts t') nm"
  by (induction ts arbitrary: m) (auto simp: get_repos_append_repo replicate_app_Cons_same)

lemma get_repos_fold_add:
  "get_repos (fold add_repo_topics rd m) t
     = get_repos m t @ concat (map (\<lambda>r. replicate (count_list (topics r) t) (full_name r)) rd)"
  by (induction rd arbitrary: m) (auto simp: add_repo_topics_def get_repos_add_topics)

text \<open>
  The list of a topic holds, record by record, the name of the record once for every
  occurrence of the topic in the topic array of the record.
\<close>

lemma get_repos_build:
  "get_repos (build_topic_mapping rd) t
     = concat (map (\<lambda>r. replicate (count_list (topics r) t) (full_name r)) rd)"
proof -
  have "get_repos [] t = []" by (simp add: get_repos_def)
  then show ?thesis by (simp add: build_topic_mapping_def get_repos_fold_add)
qed

lemma count_list_distinct: "distinct xs \<Longrightarrow> count_list xs x = (if x \<in> set xs then 1 else 0)"
  by (induction xs) auto

lemma get_repos_build_distinct:
  assumes "\<forall>r\<in>set rd. distinct (topics r)"
  shows "get_repos (build_topic_mapping rd) t
     = map full_name (filter (\<lambda>r. t \<in> set (topics r)) rd)"
  using assms unfolding get_repos_build
  by (induction rd) (auto simp: count_list_distinct)

text \<open>
  Claim C2, as stated, fails: nothing in \<^verbatim>\<open>_build_topic_mapping\<close> looks at what the list
  already holds. A record whose topic array is \<open>[x, x]\<close> is listed twice under \<open>x\<close>.
\<close>

theorem topic_index_duplicate_counterexample:
  "count_list (get_repos (build_topic_mapping [dup_repo]) ''x'') ''o/A'' = 2"
  by (simp add: get_repos_build dup_repo_def mk_repo_def)

text \<open>
  Claim C2, amended. When no record names a topic twice in its own topic array, every
  record is listed exactly once under each of its topics: the number of entries of a
  name under a topic is the number of records of that name that carry the topic.
\<close>

theorem topic_index_once_per_listed_topic:
  assumes "\<forall>r\<in>set rd. distinct (topics r)"
  shows "count_list (get_repos (build_topic_mapping rd) t) n
     = length (filter (\<lambda>r. full_name r = n \<and> t \<in> set (topics r)) rd)"
  using assms unfolding get_repos_build
  by (induction rd) (auto simp: count_list_distinct)

theorem topic_index_once_per_listed_topic_witness:
  "distinct (topics (mk_repo ''o/A'' [''x'', ''y''])) \<and> distinct (topics (mk_repo ''o/B'' [''x'']))
   \<and> count_list (get_repos (build_topic_mapping
        [mk_repo ''o/A'' [''x'', ''y''], mk_repo ''o/B'' [''x'']]) ''x'') ''o/A'' = 1"
proof -
  let ?rd = "[mk_repo ''o/A'' [''x'', ''y''], mk_repo ''o/B'' [''x'']]"
  have h: "\<forall>r\<in>set ?rd. distinct (topics r)" by (simp add: mk_repo_def)
  show ?thesis
    using h topic_index_once_per_listed_topic [OF h, of "''x''" "''o/A''"]
    by (simp add: mk_repo_def)
qed

section \<open>The seed that is not a repository\<close>



section \<open>Properties of the graph operations\<close>


lemma upd_node_names: "fst ` set (upd_node ns n a) = insert n (fst ` set ns)"
  by (induction ns n a rule: upd_node.induct) auto

lemma map_of_upd_node:
  "map_of (upd_node ns n a) m =
     (if m = n then Some (case map_of ns n of None \<Rightarrow> a | Some b \<Rightarrow> update_attrs b a)
      else map_of ns m)"
  by (induction ns n a rule: upd_node.induct) auto

lemma update_no_attrs: "update_attrs b no_attrs = b"
  by (simp add: update_attrs_def no_attrs_def merge_opt_def)

lemma level_no_attrs: "level no_attrs = None"
  by (simp add: no_attrs_def)

lemma node_names_add_node: "node_names (add_node g n a) = insert n (node_names g)"
  by (simp add: node_names_def add_node_def upd_node_names)

lemma node_names_add_edge: "node_names (add_edge g u v w) = insert u (insert v (node_names g))"
  by (auto simp: node_names_def add_edge_def upd_node_names)

lemma edges_add_node: "edges (add_node g n a) = edges g"
  by (simp add: add_node_def)

lemma node_level_add_edge: "node_level (add_edge g u v w) n = node_level g n"
  by (auto simp: node_level_def add_edge_def map_of_upd_node update_no_attrs level_no_attrs
      split: option.splits)

lemma upd_edge_set:
  "e \<in> set (upd_edge es u v w) \<Longrightarrow>
     e \<in> set es \<or> (snd e = w \<and> (fst e = (u, v) \<or> fst e = (v, u)))"
  by (induction es u v w rule: upd_edge.induct) (auto split: if_splits)

lemma upd_edge_keys:
  "fst ` set (upd_edge es u v w) =
     (if (u, v) \<in> fst ` set es \<or> (v, u) \<in> fst ` set es then fst ` set es
      else insert (u, v) (fst ` set es))"
  by (induction es u v w rule: upd_edge.induct) (auto split: if_splits)

lemma upd_edge_length: "length (upd_edge es u v w) \<le> Suc (length es)"
  by (induction es u v w rule: upd_edge.induct) auto

lemma upd_edge_ends:
  "map edge_ends (upd_edge es u v w) =
     (if {u, v} \<in> edge_ends ` set es then map edge_ends es else map edge_ends es @ [{u, v}])"
  by (induction es u v w rule: upd_edge.induct) (auto simp: edge_ends_def doubleton_eq_iff)

lemma has_edge_add_edge:
  "has_edge (add_edge g u v w) a b \<longleftrightarrow> has_edge g a b \<or> (a = u \<and> b = v) \<or> (a = v \<and> b = u)"
  by (auto simp: has_edge_def add_edge_def upd_edge_keys split: if_splits)

lemma has_edge_add_node: "has_edge (add_node g n a) x y = has_edge g x y"
  by (simp add: has_edge_def add_node_def)

lemma single_edges_add_edge: "single_edges g \<Longrightarrow> single_edges (add_edge g u v w)"
  by (auto simp: single_edges_def add_edge_def upd_edge_ends)

lemma closed_edges_add_edge: "closed_edges g \<Longrightarrow> closed_edges (add_edge g u v w)"
  unfolding closed_edges_def node_names_add_edge
  by (auto simp: add_edge_def dest!: upd_edge_set)

lemma no_self_loops_add_edge: "no_self_loops g \<Longrightarrow> u \<noteq> v \<Longrightarrow> no_self_loops (add_edge g u v w)"
  unfolding no_self_loops_def
  by (auto simp: add_edge_def dest!: upd_edge_set)

lemma single_edges_add_node: "single_edges (add_node g n a) = single_edges g"
  by (simp add: single_edges_def add_node_def)

lemma closed_edges_add_node: "closed_edges g \<Longrightarrow> closed_edges (add_node g n a)"
  by (auto simp: closed_edges_def node_names_add_node edges_add_node)

lemma no_self_loops_add_node: "no_self_loops (add_node g n a) = no_self_loops g"
  by (simp add: no_self_loops_def add_node_def)

section \<open>Properties of the topic index and of the loops of the global graph\<close>

lemma append_repo_keys: "fst ` set (append_repo m t n) = insert t (fst ` set m)"
  by (induction m t n rule: append_repo.induct) auto

lemma append_repo_distinct: "distinct (map fst m) \<Longrightarrow> distinct (map fst (append_repo m t n))"
proof (induction m t n rule: append_repo.induct)
  case (1 t n)
  then show ?case by simp
next
  case (2 k v m t n)
  then show ?case using append_repo_keys [of m t n] by auto
qed

lemma fold_append_repo_distinct:
  "distinct (map fst m) \<Longrightarrow> distinct (map fst (fold (\<lambda>t m'. append_repo m' t nm) ts m))"
  by (induction ts arbitrary: m) (auto simp: append_repo_distinct)

lemma build_topic_mapping_distinct: "distinct (map fst (build_topic_mapping rd))"
proof -
  have "distinct (map fst m) \<Longrightarrow> distinct (map fst (fold add_repo_topics rd m))" for m
    by (induction rd arbitrary: m) (auto simp: add_repo_topics_def fold_append_repo_distinct)
  then show ?thesis by (simp add: build_topic_mapping_def)
qed

lemma index_entry_get_repos:
  assumes "(t, l) \<in> set (build_topic_mapping rd)"
  shows "get_repos (build_topic_mapping rd) t = l"
  using assms build_topic_mapping_distinct [of rd] by (simp add: get_repos_def)

lemma get_repos_names:
  assumes "n \<in> set (get_repos (build_topic_mapping rd) t)"
  shows "\<exists>r\<in>set rd. full_name r = n \<and> t \<in> set (topics r)"
proof -
  obtain r where r: "r \<in> set rd" "n \<in> set (replicate (count_list (topics r) t) (full_name r))"
    using assms by (auto simp: get_repos_build)
  then have "full_name r = n" "count_list (topics r) t \<noteq> 0" by (auto split: if_splits)
  then show ?thesis using r(1) by (auto simp: count_list_0_iff)
qed

lemma index_entry_names:
  assumes "(t, l) \<in> set (build_topic_mapping rd)" "n \<in> set l"
  shows "\<exists>r\<in>set rd. full_name r = n \<and> t \<in> set (topics r)"
  using assms index_entry_get_repos [OF assms(1)] get_repos_names [of n rd t] by simp

lemma build_repo_map_unique:
  assumes "distinct (map full_name rd)" "r \<in> set rd"
  shows "build_repo_map rd (full_name r) = Some r"
proof -
  have "distinct (map fst (rev (map (\<lambda>r. (full_name r, r)) rd)))"
    using assms(1) by (simp add: rev_map [symmetric] comp_def)
  moreover have "(full_name r, r) \<in> set (rev (map (\<lambda>r. (full_name r, r)) rd))"
    using assms(2) by auto
  ultimately show ?thesis unfolding build_repo_map_def by (rule map_of_is_SomeI)
qed

lemma build_repo_map_name: "build_repo_map rd n = Some r \<Longrightarrow> full_name r = n \<and> r \<in> set rd"
  unfolding build_repo_map_def by (auto dest!: map_of_SomeD)

subsection \<open>One step of the pair loop\<close>

lemma try_pair_cases:
  assumes "try_pair rm t r1 r2 s = Inr s'"
  shows "(s' = s \<and> edge_key r1 r2 \<in> set (added_edges s))
    \<or> (\<exists>a b. rm r1 = Some a \<and> rm r2 = Some b \<and> edge_key r1 r2 \<notin> set (added_edges s)
          \<and> shared_topics a b < 2
          \<and> s' = s\<lparr>evaluated := evaluated s @ [(t, edge_key r1 r2)]\<rparr>)
    \<or> (\<exists>a b. rm r1 = Some a \<and> rm r2 = Some b \<and> edge_key r1 r2 \<notin> set (added_edges s)
          \<and> 2 \<le> shared_topics a b
          \<and> s' = s\<lparr>evaluated := evaluated s @ [(t, edge_key r1 r2)],
                    G := add_edge (G s) r1 r2 (shared_topics a b),
                    added_edges := added_edges s @ [edge_key r1 r2],
                    edge_count := edge_count s + 1\<rparr>)"
  using assms unfolding try_pair_def Let_def
  by (auto split: if_splits option.splits)

lemma try_pair_total:
  assumes "rm r1 \<noteq> None" "rm r2 \<noteq> None"
  shows "\<exists>s'. try_pair rm t r1 r2 s = Inr s'"
  using assms unfolding try_pair_def Let_def by (auto split: option.splits)

subsection \<open>Invariants of the three loops\<close>

lemma inner_loop_inv:
  assumes "inner_loop rm t r1 rs s = Inr s'" and "P s"
    and step: "\<And>r2 u u'. r2 \<in> set rs \<Longrightarrow> P u \<Longrightarrow> edge_count u < max_edges
                 \<Longrightarrow> try_pair rm t r1 r2 u = Inr u' \<Longrightarrow> P u'"
  shows "P s'"
  using assms
proof (induction rs arbitrary: s)
  case Nil
  then show ?case by simp
next
  case (Cons r2 rs)
  show ?case
  proof (cases "max_edges \<le> edge_count s")
    case True
    then show ?thesis using Cons.prems by simp
  next
    case False
    then obtain u where u: "try_pair rm t r1 r2 s = Inr u" "inner_loop rm t r1 rs u = Inr s'"
      using Cons.prems(1) by (auto split: sum.splits)
    have Pu: "P u" using Cons.prems(3) [of r2 s u] False u(1) Cons.prems(2) by simp
    show ?thesis
    proof (rule Cons.IH [OF u(2) Pu])
      fix r2' v v'
      assume "r2' \<in> set rs" "P v" "edge_count v < max_edges" "try_pair rm t r1 r2' v = Inr v'"
      then show "P v'" using Cons.prems(3) [of r2' v v'] by simp
    qed
  qed
qed

lemma outer_loop_inv:
  assumes "outer_loop rm t rs s = Inr s'" and "P s"
    and step: "\<And>r1 r2 u u'. (r1, r2) \<in> set (pairs rs) \<Longrightarrow> P u \<Longrightarrow> edge_count u < max_edges
                 \<Longrightarrow> try_pair rm t r1 r2 u = Inr u' \<Longrightarrow> P u'"
  shows "P s'"
  using assms
proof (induction rs arbitrary: s)
  case Nil
  then show ?case by simp
next
  case (Cons r1 rs)
  obtain u where u: "inner_loop rm t r1 rs s = Inr u"
    using Cons.prems(1) by (auto split: sum.splits)
  have Pu: "P u"
    using u Cons.prems(2)
  proof (rule inner_loop_inv)
    fix r2 v v'
    assume "r2 \<in> set rs" "P v" "edge_count v < max_edges" "try_pair rm t r1 r2 v = Inr v'"
    then show "P v'" using Cons.prems(3) [of r1 r2 v v'] by simp
  qed
  show ?case
  proof (cases "max_edges \<le> edge_count u")
    case True
    then show ?thesis using Cons.prems(1) u Pu by simp
  next
    case False
    then have run: "outer_loop rm t rs u = Inr s'" using Cons.prems(1) u by simp
    show ?thesis
    proof (rule Cons.IH [OF run Pu])
      fix a b v v'
      assume "(a, b) \<in> set (pairs rs)" "P v" "edge_count v < max_edges"
        "try_pair rm t a b v = Inr v'"
      then show "P v'" using Cons.prems(3) [of a b v v'] by simp
    qed
  qed
qed

lemma topic_loop_inv:
  assumes "topic_loop rm tm s = Inr s'" and "P s"
    and step: "\<And>t l r1 r2 u u'. (t, l) \<in> set tm \<Longrightarrow> (r1, r2) \<in> set (pairs (take 8 l))
                 \<Longrightarrow> P u \<Longrightarrow> edge_count u < max_edges
                 \<Longrightarrow> try_pair rm t r1 r2 u = Inr u' \<Longrightarrow> P u'"
  shows "P s'"
  using assms
proof (induction tm arbitrary: s)
  case Nil
  then show ?case by simp
next
  case (Cons tl tm)
  obtain t l where tl: "tl = (t, l)" by (cases tl)
  have tk: "(if 8 < length l then take 8 l else l) = take 8 l" by simp
  obtain u where u: "outer_loop rm t (take 8 l) s = Inr u" "topic_loop rm tm u = Inr s'"
    using Cons.prems(1) unfolding tl topic_loop.simps Let_def tk by (auto split: sum.splits)
  have Pu: "P u"
    using u(1) Cons.prems(2)
  proof (rule outer_loop_inv)
    fix r1 r2 v v'
    assume "(r1, r2) \<in> set (pairs (take 8 l))" "P v" "edge_count v < max_edges"
      "try_pair rm t r1 r2 v = Inr v'"
    then show "P v'" using Cons.prems(3) [of t l r1 r2 v v'] tl by simp
  qed
  show ?case
  proof (rule Cons.IH [OF u(2) Pu])
    fix t' l' a b v v'
    assume "(t', l') \<in> set tm" "(a, b) \<in> set (pairs (take 8 l'))" "P v"
      "edge_count v < max_edges" "try_pair rm t' a b v = Inr v'"
    then show "P v'" using Cons.prems(3) [of t' l' a b v v'] by simp
  qed
qed

lemma pairs_members: "(a, b) \<in> set (pairs xs) \<Longrightarrow> a \<in> set xs \<and> b \<in> set xs"
  by (induction xs) auto

lemma pairs_distinct: "distinct xs \<Longrightarrow> (a, b) \<in> set (pairs xs) \<Longrightarrow> a \<noteq> b"
  by (induction xs) (auto dest: pairs_members)

lemma inner_loop_total:
  assumes "rm r1 \<noteq> None" "\<forall>r\<in>set rs. rm r \<noteq> None"
  shows "\<exists>s'. inner_loop rm t r1 rs s = Inr s'"
  using assms
proof (induction rs arbitrary: s)
  case Nil
  then show ?case by simp
next
  case (Cons r2 rs)
  obtain u where "try_pair rm t r1 r2 s = Inr u"
    using try_pair_total [of rm r1 r2 t s] Cons.prems by auto
  then show ?case using Cons.IH [of u] Cons.prems by auto
qed

lemma outer_loop_total:
  assumes "\<forall>r\<in>set rs. rm r \<noteq> None"
  shows "\<exists>s'. outer_loop rm t rs s = Inr s'"
  using assms
proof (induction rs arbitrary: s)
  case Nil
  then show ?case by simp
next
  case (Cons r1 rs)
  obtain u where "inner_loop rm t r1 rs s = Inr u"
    using inner_loop_total [of rm r1 rs t s] Cons.prems by auto
  then show ?case using Cons.IH [of u] Cons.prems by auto
qed

lemma topic_loop_total:
  assumes "\<forall>tl\<in>set tm. \<forall>r\<in>set (snd tl). rm r \<noteq> None"
  shows "\<exists>s'. topic_loop rm tm s = Inr s'"
  using assms
proof (induction tm arbitrary: s)
  case Nil
  then show ?case by simp
next
  case (Cons tl tm)
  obtain t l where tl: "tl = (t, l)" by (cases tl)
  have "\<forall>r\<in>set (take 8 l). rm r \<noteq> None"
    using Cons.prems tl by (auto dest: in_set_takeD)
  then obtain u where "outer_loop rm t (take 8 l) s = Inr u"
    using outer_loop_total [of "take 8 l" rm t s] by auto
  then show ?case using Cons.IH [of u] Cons.prems tl by (auto simp: Let_def)
qed

lemma build_full_state_total: "\<exists>s. build_full_state (init rd) = Inr s"
proof -
  have "\<forall>tl\<in>set (build_topic_mapping rd). \<forall>r\<in>set (snd tl). build_repo_map rd r \<noteq> None"
  proof (intro ballI)
    fix tl r
    assume a: "tl \<in> set (build_topic_mapping rd)" "r \<in> set (snd tl)"
    then have "(fst tl, snd tl) \<in> set (build_topic_mapping rd)" by simp
    then obtain x where "x \<in> set rd" "full_name x = r"
      using index_entry_names a(2) by blast
    then show "build_repo_map rd r \<noteq> None" by (auto simp: build_repo_map_None)
  qed
  then show ?thesis unfolding build_full_state_def init_def
    using topic_loop_total by simp
qed

section \<open>The invariant of the global graph\<close>


lemma shared_topics_commute: "shared_topics a b = shared_topics b a"
  by (simp add: shared_topics_def Int_commute)

lemma edge_key_cases: "edge_key r1 r2 = (r1, r2) \<or> edge_key r1 r2 = (r2, r1)"
  by (simp add: edge_key_def)

lemma edge_key_commute: "edge_key r1 r2 = edge_key r2 r1"
  by (auto simp: edge_key_def)

lemma key_shared_edge_key:
  assumes "rm r1 = Some a" "rm r2 = Some b"
  shows "key_shared rm (edge_key r1 r2) = shared_topics a b"
  using assms edge_key_cases [of r1 r2]
  by (auto simp: key_shared_def shared_topics_commute)

lemma has_edge_sym: "has_edge g u v = has_edge g v u"
  unfolding has_edge_def by blast

lemma has_edge_edge_key: "has_edge g (fst (edge_key r1 r2)) (snd (edge_key r1 r2)) = has_edge g r1 r2"
proof (cases "edge_key r1 r2 = (r1, r2)")
  case True
  then show ?thesis by simp
next
  case False
  then have "edge_key r1 r2 = (r2, r1)" using edge_key_cases [of r1 r2] by simp
  then show ?thesis using has_edge_sym [of g r2 r1] by simp
qed

lemma edges_weighed_add_edge:
  assumes "edges_weighed rm g" "rm u = Some a" "rm v = Some b" "2 \<le> shared_topics a b"
  shows "edges_weighed rm (add_edge g u v (shared_topics a b))"
  unfolding edges_weighed_def
proof
  fix e
  assume "e \<in> set (edges (add_edge g u v (shared_topics a b)))"
  then have "e \<in> set (upd_edge (edges g) u v (shared_topics a b))" by (simp add: add_edge_def)
  then consider "e \<in> set (edges g)" | "snd e = shared_topics a b" "fst e = (u, v)"
    | "snd e = shared_topics a b" "fst e = (v, u)"
    using upd_edge_set by blast
  then show "2 \<le> snd e \<and> (\<exists>a b. rm (fst (fst e)) = Some a \<and> rm (snd (fst e)) = Some b
      \<and> snd e = card (set (topics a) \<inter> set (topics b)))"
  proof cases
    case 1
    then show ?thesis using assms(1) by (simp add: edges_weighed_def)
  next
    case 2
    then show ?thesis using assms by (auto simp: shared_topics_def)
  next
    case 3
    then show ?thesis using assms by (auto simp: shared_topics_def Int_commute)
  qed
qed

lemma length_edges_add_edge: "length (edges (add_edge g u v w)) \<le> Suc (length (edges g))"
  by (simp add: add_edge_def upd_edge_length)

lemma full_inv_step:
  assumes inv: "full_inv rm tm s" and cap: "edge_count s < max_edges"
    and tl: "(t, l) \<in> set tm" "(r1, r2) \<in> set (pairs (take 8 l))"
    and run: "try_pair rm t r1 r2 s = Inr s'"
  shows "full_inv rm tm s'"
proof -
  let ?k = "edge_key r1 r2"
  consider (seen) "s' = s"
    | (low) a b where "rm r1 = Some a" "rm r2 = Some b" "shared_topics a b < 2"
        "s' = s\<lparr>evaluated := evaluated s @ [(t, ?k)]\<rparr>"
    | (add) a b where "rm r1 = Some a" "rm r2 = Some b" "?k \<notin> set (added_edges s)"
        "2 \<le> shared_topics a b"
        "s' = s\<lparr>evaluated := evaluated s @ [(t, ?k)],
                  G := add_edge (G s) r1 r2 (shared_topics a b),
                  added_edges := added_edges s @ [?k],
                  edge_count := edge_count s + 1\<rparr>"
    using try_pair_cases [OF run] by blast
  then show ?thesis
  proof cases
    case seen
    then show ?thesis using inv by simp
  next
    case low
    have ks: "key_shared rm ?k < 2" using low by (simp add: key_shared_edge_key)
    show ?thesis
      using inv low(4) ks tl unfolding full_inv_def by auto
  next
    case add
    have ks: "2 \<le> key_shared rm ?k" using add by (simp add: key_shared_edge_key)
    have w: "edges_weighed rm (G s')"
      using inv add edges_weighed_add_edge [of rm "G s" r1 a r2 b]
      by (simp add: full_inv_def)
    have se: "single_edges (G s')" "closed_edges (G s')"
      using inv add(5) by (simp_all add: full_inv_def single_edges_add_edge closed_edges_add_edge)
    have le: "length (edges (G s')) \<le> edge_count s'" "edge_count s' \<le> max_edges"
      using inv cap add(5) length_edges_add_edge [of "G s" r1 r2 "shared_topics a b"]
      by (auto simp: full_inv_def)
    have ad: "added_edges s' = map snd (filter (\<lambda>e. 2 \<le> key_shared rm (snd e)) (evaluated s'))"
      "distinct (added_edges s')" "length (added_edges s') = edge_count s'"
      using inv add(3,5) ks by (auto simp: full_inv_def)
    have he: "\<forall>k\<in>set (added_edges s'). has_edge (G s') (fst k) (snd k)"
      using inv add(5) has_edge_edge_key [of "add_edge (G s) r1 r2 (shared_topics a b)" r1 r2]
      by (auto simp: full_inv_def has_edge_add_edge)
    have ev: "\<forall>e\<in>set (evaluated s'). \<exists>l r1 r2. (fst e, l) \<in> set tm
            \<and> (r1, r2) \<in> set (pairs (take 8 l)) \<and> snd e = edge_key r1 r2"
      using inv add(5) tl by (auto simp: full_inv_def)
    show ?thesis unfolding full_inv_def using w se le ad he ev by simp
  qed
qed

lemma edges_add_all_nodes: "edges (add_all_nodes rd) = []"
proof -
  have "edges (fold (\<lambda>r g. add_node g (full_name r) (full_attrs r)) rd g) = edges g" for g
    by (induction rd arbitrary: g) (auto simp: edges_add_node)
  then show ?thesis by (simp add: add_all_nodes_def empty_graph_def)
qed

lemma node_names_add_all_nodes: "node_names (add_all_nodes rd) = full_name ` set rd"
proof -
  have "node_names (fold (\<lambda>r g. add_node g (full_name r) (full_attrs r)) rd g)
      = node_names g \<union> full_name ` set rd" for g
    by (induction rd arbitrary: g) (auto simp: node_names_add_node)
  then show ?thesis by (simp add: add_all_nodes_def empty_graph_def node_names_def)
qed

lemma full_inv_initial:
  "full_inv rm tm \<lparr>G = add_all_nodes rd, added_edges = [], edge_count = 0, evaluated = []\<rparr>"
  by (simp add: full_inv_def edges_weighed_def single_edges_def closed_edges_def
      edges_add_all_nodes)

lemma full_inv_final:
  "\<exists>s. build_full_state (init rd) = Inr s
     \<and> full_inv (repo_map (init rd)) (topic_to_repos (init rd)) s"
proof -
  obtain s where s: "build_full_state (init rd) = Inr s"
    using build_full_state_total by blast
  let ?rm = "repo_map (init rd)" and ?tm = "topic_to_repos (init rd)"
  have run: "topic_loop ?rm ?tm
      \<lparr>G = add_all_nodes (repo_data (init rd)), added_edges = [], edge_count = 0, evaluated = []\<rparr>
      = Inr s"
    using s by (simp add: build_full_state_def)
  have "full_inv ?rm ?tm s"
    using run full_inv_initial
  proof (rule topic_loop_inv)
    fix t l r1 r2 u u'
    assume "(t, l) \<in> set ?tm" "(r1, r2) \<in> set (pairs (take 8 l))" "full_inv ?rm ?tm u"
      "edge_count u < max_edges" "try_pair ?rm t r1 r2 u = Inr u'"
    then show "full_inv ?rm ?tm u'" using full_inv_step by blast
  qed
  then show ?thesis using s by blast
qed

section \<open>Weights, cap and the record of seen pairs\<close>


lemma build_full_graph_G:
  "build_full_state vis = Inr s \<Longrightarrow> build_full_graph vis = Inr (G s)"
  by (simp add: build_full_graph_def)

text \<open>
  Claim C4. For every sequence of records the global graph is built without an error,
  every edge has a weight of at least 2, the weight is the number of topics common to
  the records that the repository map holds for the two endpoints, and there are at
  most 1000 edges, each unordered pair of endpoints being stored once.
\<close>

theorem full_graph_weights_and_cap:
  "\<exists>g. build_full_graph (init rd) = Inr g \<and> edges_weighed (repo_map (init rd)) g
       \<and> single_edges g \<and> length (edges g) \<le> 1000"
proof -
  obtain s where s: "build_full_state (init rd) = Inr s"
    "full_inv (repo_map (init rd)) (topic_to_repos (init rd)) s"
    using full_inv_final by blast
  have "length (edges (G s)) \<le> 1000"
    using s(2) by (simp add: full_inv_def max_edges_def)
  then show ?thesis
    using s build_full_graph_G [OF s(1)] by (auto simp: full_inv_def)
qed

theorem full_graph_weights_and_cap_witness:
  "\<exists>g. build_full_graph (init abc_repos) = Inr g \<and> ((''o/A'', ''o/B''), 2) \<in> set (edges g)
       \<and> repo_map (init abc_repos) ''o/A'' = Some (mk_repo ''o/A'' [''x'', ''y''])
       \<and> repo_map (init abc_repos) ''o/B'' = Some (mk_repo ''o/B'' [''x'', ''y''])
       \<and> length (edges g) \<le> 1000"
proof -
  obtain g where g: "build_full_graph (init abc_repos) = Inr g"
    "edges_weighed (repo_map (init abc_repos)) g" "length (edges g) \<le> 1000"
    using full_graph_weights_and_cap [of abc_repos] by blast
  have "(case build_full_graph (init abc_repos) of Inl e \<Rightarrow> False
         | Inr g \<Rightarrow> ((''o/A'', ''o/B''), 2) \<in> set (edges g))"
    by code_simp
  then have e: "((''o/A'', ''o/B''), 2) \<in> set (edges g)" using g(1) by simp
  have "repo_map (init abc_repos) ''o/A'' = Some (mk_repo ''o/A'' [''x'', ''y''])"
    "repo_map (init abc_repos) ''o/B'' = Some (mk_repo ''o/B'' [''x'', ''y''])"
    by (simp_all add: init_def build_repo_map_def abc_repos_def mk_repo_def)
  then show ?thesis using g e by blast
qed

text \<open>
  Claim C6, as stated, fails: \<^verbatim>\<open>added_edges.add(edge_key)\<close> stands inside
  \<^verbatim>\<open>if shared >= 2\<close>. For two records that share one topic the pair is evaluated and
  is not recorded.
\<close>

theorem failed_pair_not_recorded:
  "(case build_full_state (init single_topic_pair) of
      Inl e \<Rightarrow> False
    | Inr s \<Rightarrow> evaluated s = [(''x'', (''o/A'', ''o/B''))] \<and> added_edges s = [])"
  by code_simp

lemma shared_two_topics:
  assumes "t \<in> set (topics a)" "t \<in> set (topics b)" "t' \<in> set (topics a)" "t' \<in> set (topics b)"
    "t \<noteq> t'"
  shows "2 \<le> shared_topics a b"
proof -
  have "{t, t'} \<subseteq> set (topics a) \<inter> set (topics b)" using assms by simp
  then have "card {t, t'} \<le> card (set (topics a) \<inter> set (topics b))"
    by (intro card_mono) auto
  then show ?thesis using assms(5) by (simp add: shared_topics_def)
qed

text \<open>
  Claim C6, amended. Exactly the evaluated pairs that pass the test are recorded in
  \<^verbatim>\<open>added_edges\<close>, in the order of their evaluation; a pair that fails is not recorded.
  When the names of the records are unique, a pair that fails the test is all the same
  never evaluated under two different topics, because it has a single topic in common.
\<close>

theorem failed_pairs_single_topic:
  assumes "distinct (map full_name rd)"
  shows "\<exists>s. build_full_state (init rd) = Inr s
    \<and> added_edges s
        = map snd (filter (\<lambda>e. 2 \<le> key_shared (repo_map (init rd)) (snd e)) (evaluated s))
    \<and> (\<forall>t t' k. (t, k) \<in> set (evaluated s) \<and> (t', k) \<in> set (evaluated s)
          \<and> key_shared (repo_map (init rd)) k < 2 \<longrightarrow> t = t')"
proof -
  let ?rm = "repo_map (init rd)" and ?tm = "topic_to_repos (init rd)"
  obtain s where s: "build_full_state (init rd) = Inr s" "full_inv ?rm ?tm s"
    using full_inv_final by blast
  have rec: "\<exists>a b. ?rm (fst k) = Some a \<and> ?rm (snd k) = Some b
       \<and> t \<in> set (topics a) \<and> t \<in> set (topics b)"
    if ev: "(t, k) \<in> set (evaluated s)" for t k
  proof -
    have "\<forall>e\<in>set (evaluated s). \<exists>l r1 r2. (fst e, l) \<in> set ?tm
            \<and> (r1, r2) \<in> set (pairs (take 8 l)) \<and> snd e = edge_key r1 r2"
      using s(2) by (simp add: full_inv_def)
    then obtain l r1 r2 where l: "(t, l) \<in> set ?tm" "(r1, r2) \<in> set (pairs (take 8 l))"
      "k = edge_key r1 r2"
      using ev by fastforce
    have "r1 \<in> set l" "r2 \<in> set l" using pairs_members [OF l(2)] by (auto dest: in_set_takeD)
    then obtain a b where ab: "a \<in> set rd" "full_name a = r1" "t \<in> set (topics a)"
      "b \<in> set rd" "full_name b = r2" "t \<in> set (topics b)"
      using l(1) index_entry_names [of t l rd] by (auto simp: init_def) blast
    have "?rm r1 = Some a" "?rm r2 = Some b"
      using assms ab build_repo_map_unique by (auto simp: init_def)
    then show ?thesis using ab l(3) edge_key_cases [of r1 r2] by auto
  qed
  have "t = t'" if e1: "(t, k) \<in> set (evaluated s)" and e2: "(t', k) \<in> set (evaluated s)"
    and lo: "key_shared ?rm k < 2" for t t' k
  proof (rule ccontr)
    assume ne: "t \<noteq> t'"
    obtain a b where ab: "?rm (fst k) = Some a" "?rm (snd k) = Some b"
      "t \<in> set (topics a)" "t \<in> set (topics b)"
      using rec [OF e1] by blast
    obtain a' b' where ab': "?rm (fst k) = Some a'" "?rm (snd k) = Some b'"
      "t' \<in> set (topics a')" "t' \<in> set (topics b')"
      using rec [OF e2] by blast
    have "2 \<le> shared_topics a b" using shared_two_topics [of t a b t'] ab ab' ne by simp
    then show False using lo ab by (simp add: key_shared_def)
  qed
  then show ?thesis using s by (auto simp: full_inv_def)
qed

theorem failed_pairs_single_topic_witness:
  "distinct (map full_name single_topic_pair)
   \<and> (\<exists>s. build_full_state (init single_topic_pair) = Inr s
        \<and> evaluated s = [(''x'', (''o/A'', ''o/B''))] \<and> added_edges s = []
        \<and> key_shared (repo_map (init single_topic_pair)) (''o/A'', ''o/B'') < 2)"
proof -
  have d: "distinct (map full_name single_topic_pair)"
    by (simp add: single_topic_pair_def mk_repo_def)
  obtain s where s: "build_full_state (init single_topic_pair) = Inr s"
    using failed_pairs_single_topic [OF d] by blast
  have "(case build_full_state (init single_topic_pair) of
      Inl e \<Rightarrow> False
    | Inr s \<Rightarrow> evaluated s = [(''x'', (''o/A'', ''o/B''))] \<and> added_edges s = [])"
    by code_simp
  then have e: "evaluated s = [(''x'', (''o/A'', ''o/B''))]" "added_edges s = []"
    using s by simp_all
  have k: "key_shared (repo_map (init single_topic_pair)) (''o/A'', ''o/B'') < 2"
    by code_simp
  show ?thesis using d s e k by blast
qed


section \<open>Nodes without attributes\<close>

text \<open>
  Claim C7 fails on the code. \<^verbatim>\<open>add_edge\<close> creates the candidate as a node with an
  empty attribute dict, and the candidate receives its attributes only when a later
  round finalizes it. On the chain of six records, the round of level 4 finalizes
  \<open>o/A4\<close> and draws the edge to \<open>o/A5\<close>; there is no further round, so \<open>o/A5\<close> is a
  node of the result with none of the four attributes.
\<close>

theorem ego_node_without_attributes:
  "(case fst (build_4level_graph id (init chain_repos) ''o/S'') of
      Inl e \<Rightarrow> False
    | Inr g \<Rightarrow> attrs_of g ''o/A5'' = Some no_attrs \<and> has_edge g ''o/A4'' ''o/A5''
             \<and> node_level g ''o/A4'' = Some 4)"
  by code_simp

section \<open>The invariant of the ego network\<close>


lemma set_set_add: "set (set_add x xs) = insert x (set xs)"
  by (auto simp: set_add_def)

lemma distinct_set_add: "distinct xs \<Longrightarrow> distinct (set_add x xs)"
  by (simp add: set_add_def)

lemma node_level_add_node:
  "node_level (add_node g n (ego_attrs r lvl)) m = (if m = n then Some lvl else node_level g m)"
  by (auto simp: node_level_def add_node_def map_of_upd_node update_attrs_def merge_opt_def
      ego_attrs_def split: option.splits)

lemma grows_refl: "grows s s"
  by (simp add: grows_def)

lemma grows_trans: "grows s u \<Longrightarrow> grows u v \<Longrightarrow> grows s v"
  unfolding grows_def by blast

lemma pending_grows: "pending lvl rest s \<Longrightarrow> grows s s' \<Longrightarrow> pending lvl rest s'"
  unfolding pending_def grows_def by blast

lemma pending_Cons: "pending lvl (n # rest) s \<Longrightarrow> pending lvl rest s"
  by (simp add: pending_def)

subsection \<open>A candidate\<close>

lemma try_candidate_inv:
  assumes inv: "ego_inv lvl s" and rn: "node_level (eG s) rn = Some lvl"
  shows "ego_inv lvl (try_candidate rn rr s) \<and> grows s (try_candidate rn rr s)"
proof (cases "rr \<notin> set (visited s) \<and> length (visited s) < max_nodes")
  case False
  then have "try_candidate rn rr s = s" by (auto simp: try_candidate_def)
  then show ?thesis using inv by (simp add: grows_refl)
next
  case True
  let ?s = "s\<lparr>next_level := set_add rr (next_level s), eG := add_edge (eG s) rn rr 1\<rparr>"
  have eq: "try_candidate rn rr s = ?s" using True by (simp add: try_candidate_def)
  have "rn \<in> set (visited s)" using inv rn by (simp add: ego_inv_def)
  then have ne: "rn \<noteq> rr" using True by auto
  have g: "grows s ?s"
    by (simp add: grows_def node_level_add_edge has_edge_add_edge)
  have d: "distinct (visited ?s)" using inv by (simp add: ego_inv_def)
  have j1: "\<forall>n. n \<in> set (visited ?s) \<longleftrightarrow> node_level (eG ?s) n \<noteq> None"
    using inv by (simp add: ego_inv_def node_level_add_edge)
  have j2: "\<forall>n L. node_level (eG ?s) n = Some L \<longrightarrow> L \<le> lvl"
    using inv by (simp add: ego_inv_def node_level_add_edge)
  have j3: "\<forall>n L. node_level (eG ?s) n = Some (Suc L)
           \<longrightarrow> (\<exists>m. has_edge (eG ?s) n m \<and> node_level (eG ?s) m = Some L)"
    using inv unfolding ego_inv_def by (simp add: node_level_add_edge has_edge_add_edge) blast
  have j4: "\<forall>x\<in>set (next_level ?s). \<exists>p. has_edge (eG ?s) p x \<and> node_level (eG ?s) p = Some lvl"
  proof
    fix x
    assume "x \<in> set (next_level ?s)"
    then consider "x = rr" | "x \<in> set (next_level s)" by (auto simp: set_set_add)
    then show "\<exists>p. has_edge (eG ?s) p x \<and> node_level (eG ?s) p = Some lvl"
    proof cases
      case 1
      then show ?thesis using rn by (auto simp: node_level_add_edge has_edge_add_edge)
    next
      case 2
      then obtain p where "has_edge (eG s) p x" "node_level (eG s) p = Some lvl"
        using inv unfolding ego_inv_def by blast
      then show ?thesis by (auto simp: node_level_add_edge has_edge_add_edge)
    qed
  qed
  have sg: "no_self_loops (eG ?s)" "single_edges (eG ?s)" "closed_edges (eG ?s)"
    using inv ne
    by (simp_all add: ego_inv_def no_self_loops_add_edge single_edges_add_edge closed_edges_add_edge)
  have "ego_inv lvl ?s" unfolding ego_inv_def using d j1 j2 j3 j4 sg by blast
  then show ?thesis using g eq by simp
qed

lemma try_candidate_next_level:
  "set (next_level (try_candidate rn rr s)) \<subseteq> insert rr (set (next_level s))"
  by (auto simp: try_candidate_def set_set_add)

lemma try_candidate_visited: "visited (try_candidate rn rr s) = visited s"
  by (simp add: try_candidate_def)

lemma fold_candidates_inv:
  assumes "ego_inv lvl s" "node_level (eG s) rn = Some lvl"
  shows "ego_inv lvl (fold (try_candidate rn) rs s) \<and> grows s (fold (try_candidate rn) rs s)
    \<and> visited (fold (try_candidate rn) rs s) = visited s
    \<and> set (next_level (fold (try_candidate rn) rs s)) \<subseteq> set (next_level s) \<union> set rs"
  using assms
proof (induction rs arbitrary: s)
  case Nil
  then show ?case by (simp add: grows_refl)
next
  case (Cons rr rs)
  let ?u = "try_candidate rn rr s"
  have u: "ego_inv lvl ?u" "grows s ?u"
    using try_candidate_inv [OF Cons.prems] by simp_all
  then have rn: "node_level (eG ?u) rn = Some lvl" using Cons.prems(2) by (simp add: grows_def)
  have ih: "ego_inv lvl (fold (try_candidate rn) rs ?u)" "grows ?u (fold (try_candidate rn) rs ?u)"
    "visited (fold (try_candidate rn) rs ?u) = visited ?u"
    "set (next_level (fold (try_candidate rn) rs ?u)) \<subseteq> set (next_level ?u) \<union> set rs"
    using Cons.IH [OF u(1) rn] by simp_all
  have "set (next_level (fold (try_candidate rn) rs ?u)) \<subseteq> set (next_level s) \<union> set (rr # rs)"
    using ih(4) try_candidate_next_level [of rn rr s] by auto
  then show ?case
    using ih grows_trans [OF u(2) ih(2)] by (simp add: try_candidate_visited)
qed

lemma expand_topic_inv:
  assumes "ego_inv lvl s" "node_level (eG s) rn = Some lvl"
  shows "ego_inv lvl (expand_topic tm rn t s) \<and> grows s (expand_topic tm rn t s)
    \<and> visited (expand_topic tm rn t s) = visited s
    \<and> set (next_level (expand_topic tm rn t s)) \<subseteq> set (next_level s) \<union> set (get_repos tm t)"
proof -
  have "set (take 5 (get_repos tm t)) \<subseteq> set (get_repos tm t)" by (rule set_take_subset)
  then show ?thesis
    using fold_candidates_inv [OF assms, of "take 5 (get_repos tm t)"]
    unfolding expand_topic_def by blast
qed

lemma fold_topics_inv:
  assumes "ego_inv lvl s" "node_level (eG s) rn = Some lvl"
  shows "ego_inv lvl (fold (expand_topic tm rn) ts s) \<and> grows s (fold (expand_topic tm rn) ts s)
    \<and> visited (fold (expand_topic tm rn) ts s) = visited s
    \<and> set (next_level (fold (expand_topic tm rn) ts s))
         \<subseteq> set (next_level s) \<union> (\<Union>t. set (get_repos tm t))"
  using assms
proof (induction ts arbitrary: s)
  case Nil
  then show ?case by (simp add: grows_refl)
next
  case (Cons t ts)
  let ?u = "expand_topic tm rn t s"
  have u: "ego_inv lvl ?u" "grows s ?u" "visited ?u = visited s"
    "set (next_level ?u) \<subseteq> set (next_level s) \<union> set (get_repos tm t)"
    using expand_topic_inv [OF Cons.prems] by simp_all
  then have rn: "node_level (eG ?u) rn = Some lvl" using Cons.prems(2) by (simp add: grows_def)
  have ih: "ego_inv lvl (fold (expand_topic tm rn) ts ?u)"
    "grows ?u (fold (expand_topic tm rn) ts ?u)"
    "visited (fold (expand_topic tm rn) ts ?u) = visited ?u"
    "set (next_level (fold (expand_topic tm rn) ts ?u))
       \<subseteq> set (next_level ?u) \<union> (\<Union>t. set (get_repos tm t))"
    using Cons.IH [OF u(1) rn] by simp_all
  have "set (next_level (fold (expand_topic tm rn) ts ?u))
       \<subseteq> set (next_level s) \<union> (\<Union>t. set (get_repos tm t))"
    using ih(4) u(4) by auto
  then show ?case
    using ih u(3) grows_trans [OF u(2) ih(2)] by simp
qed

lemma expand_repo_inv:
  assumes "ego_inv lvl s" "node_level (eG s) rn = Some lvl"
  shows "ego_inv lvl (expand_repo tm rn r s) \<and> grows s (expand_repo tm rn r s)
    \<and> visited (expand_repo tm rn r s) = visited s
    \<and> set (next_level (expand_repo tm rn r s))
         \<subseteq> set (next_level s) \<union> (\<Union>t. set (get_repos tm t))"
  using fold_topics_inv [OF assms] unfolding expand_repo_def by blast


subsection \<open>Finalising a repository\<close>

lemma finalize_inv:
  fixes r :: repo
  assumes inv: "ego_inv lvl s" and nv: "rn \<notin> set (visited s)"
    and par: "lvl = 0 \<or> (\<exists>p. has_edge (eG s) p rn \<and> node_level (eG s) p = Some (lvl - 1))"
  defines "u \<equiv> s\<lparr>visited := set_add rn (visited s),
                    eG := add_node (eG s) rn (ego_attrs r lvl)\<rparr>"
  shows "ego_inv lvl u \<and> grows s u \<and> node_level (eG u) rn = Some lvl"
proof -
  have none: "node_level (eG s) rn = None" using inv nv by (simp add: ego_inv_def)
  have lv: "node_level (eG u) m = (if m = rn then Some lvl else node_level (eG s) m)" for m
    by (simp add: u_def node_level_add_node)
  have he: "has_edge (eG u) a b = has_edge (eG s) a b" for a b
    by (simp add: u_def has_edge_add_node)
  have keep: "node_level (eG u) m = Some L" if "node_level (eG s) m = Some L" for m L
    using that none lv by auto
  have g: "grows s u"
    unfolding grows_def using keep he by (auto simp: u_def set_set_add)
  have d: "distinct (visited u)" using inv by (simp add: u_def ego_inv_def distinct_set_add)
  have j1: "\<forall>n. n \<in> set (visited u) \<longleftrightarrow> node_level (eG u) n \<noteq> None"
    using inv lv by (auto simp: u_def ego_inv_def set_set_add)
  have j2: "\<forall>n L. node_level (eG u) n = Some L \<longrightarrow> L \<le> lvl"
    using inv lv by (auto simp: ego_inv_def split: if_splits)
  have j3: "\<forall>n L. node_level (eG u) n = Some (Suc L)
           \<longrightarrow> (\<exists>m. has_edge (eG u) n m \<and> node_level (eG u) m = Some L)"
  proof (intro allI impI)
    fix n L
    assume a: "node_level (eG u) n = Some (Suc L)"
    show "\<exists>m. has_edge (eG u) n m \<and> node_level (eG u) m = Some L"
    proof (cases "n = rn")
      case True
      then have "lvl = Suc L" using a lv by simp
      then obtain p where "has_edge (eG s) p rn" "node_level (eG s) p = Some L"
        using par by auto
      then show ?thesis using True he keep has_edge_sym by blast
    next
      case False
      then have "node_level (eG s) n = Some (Suc L)" using a lv by simp
      then obtain m where "has_edge (eG s) n m" "node_level (eG s) m = Some L"
        using inv unfolding ego_inv_def by blast
      then show ?thesis using he keep by blast
    qed
  qed
  have j4: "\<forall>x\<in>set (next_level u). \<exists>p. has_edge (eG u) p x \<and> node_level (eG u) p = Some lvl"
  proof
    fix x
    assume "x \<in> set (next_level u)"
    then have "x \<in> set (next_level s)" by (simp add: u_def)
    then obtain p where "has_edge (eG s) p x" "node_level (eG s) p = Some lvl"
      using inv unfolding ego_inv_def by blast
    then show "\<exists>p. has_edge (eG u) p x \<and> node_level (eG u) p = Some lvl"
      using he keep by blast
  qed
  have sg: "no_self_loops (eG u)" "single_edges (eG u)" "closed_edges (eG u)"
    using inv
    by (simp_all add: u_def ego_inv_def no_self_loops_add_node single_edges_add_node
        closed_edges_add_node)
  have "ego_inv lvl u" unfolding ego_inv_def using d j1 j2 j3 j4 sg by blast
  then show ?thesis using g lv by simp
qed

subsection \<open>A round\<close>

lemma visit_loop_inv:
  assumes "ego_inv lvl s" "pending lvl cur s" "names_ok vis cur" "index_ok vis"
    "names_ok vis (next_level s)"
  shows "\<exists>s'. visit_loop vis lvl cur s = Inr s' \<and> ego_inv lvl s' \<and> grows s s'
    \<and> set cur \<subseteq> set (visited s') \<and> names_ok vis (next_level s')
    \<and> (\<forall>n\<in>set cur. n \<notin> set (visited s) \<longrightarrow> node_level (eG s') n = Some lvl)"
  using assms
proof (induction cur arbitrary: s)
  case Nil
  then show ?case by (simp add: grows_refl)
next
  case (Cons rn rest)
  have rest_ok: "names_ok vis rest" using Cons.prems(3) by (simp add: names_ok_def)
  show ?case
  proof (cases "rn \<in> set (visited s)")
    case True
    obtain s' where s': "visit_loop vis lvl rest s = Inr s'" "ego_inv lvl s'" "grows s s'"
      "set rest \<subseteq> set (visited s')" "names_ok vis (next_level s')"
      "\<forall>n\<in>set rest. n \<notin> set (visited s) \<longrightarrow> node_level (eG s') n = Some lvl"
      using Cons.IH [OF Cons.prems(1) pending_Cons [OF Cons.prems(2)] rest_ok Cons.prems(4,5)]
      by blast
    have "rn \<in> set (visited s')" using True s'(3) by (auto simp: grows_def)
    moreover have "\<forall>n\<in>set (rn # rest). n \<notin> set (visited s) \<longrightarrow> node_level (eG s') n = Some lvl"
      using True s'(6) by auto
    ultimately show ?thesis using True s'(1-5) by auto
  next
    case False
    obtain r where r: "repo_map vis rn = Some r"
      using Cons.prems(3) by (auto simp: names_ok_def)
    let ?u = "s\<lparr>visited := set_add rn (visited s),
                 eG := add_node (eG s) rn (ego_attrs r lvl)\<rparr>"
    let ?v = "expand_repo (topic_to_repos vis) rn r ?u"
    have par: "lvl = 0 \<or> (\<exists>p. has_edge (eG s) p rn \<and> node_level (eG s) p = Some (lvl - 1))"
      using Cons.prems(2) False by (auto simp: pending_def)
    have u: "ego_inv lvl ?u" "grows s ?u" "node_level (eG ?u) rn = Some lvl"
      using finalize_inv [OF Cons.prems(1) False par, of r] by simp_all
    have v: "ego_inv lvl ?v" "grows ?u ?v" "visited ?v = visited ?u"
      "set (next_level ?v) \<subseteq> set (next_level ?u) \<union> (\<Union>t. set (get_repos (topic_to_repos vis) t))"
      using expand_repo_inv [OF u(1) u(3), of "topic_to_repos vis" r] by simp_all
    have sv: "grows s ?v" using grows_trans [OF u(2) v(2)] .
    have pv: "pending lvl rest ?v"
      using pending_grows [OF pending_Cons [OF Cons.prems(2)] sv] .
    have nv: "names_ok vis (next_level ?v)"
      using v(4) Cons.prems(4,5) unfolding names_ok_def index_ok_def by auto
    obtain s' where s': "visit_loop vis lvl rest ?v = Inr s'" "ego_inv lvl s'" "grows ?v s'"
      "set rest \<subseteq> set (visited s')" "names_ok vis (next_level s')"
      "\<forall>n\<in>set rest. n \<notin> set (visited ?v) \<longrightarrow> node_level (eG s') n = Some lvl"
      using Cons.IH [OF v(1) pv rest_ok Cons.prems(4) nv] by blast
    have run: "visit_loop vis lvl (rn # rest) s = Inr s'"
      using False r s'(1) by (simp add: Let_def)
    have "rn \<in> set (visited ?v)" using v(3) by (simp add: set_set_add)
    then have vis_rn: "rn \<in> set (visited s')" using s'(3) by (auto simp: grows_def)
    have "node_level (eG ?v) rn = Some lvl" using u(3) v(2) by (simp add: grows_def)
    then have lv_rn: "node_level (eG s') rn = Some lvl" using s'(3) by (simp add: grows_def)
    have "node_level (eG s') n = Some lvl" if n: "n \<in> set (rn # rest)" "n \<notin> set (visited s)" for n
    proof (cases "n = rn")
      case True
      then show ?thesis using lv_rn by simp
    next
      case False
      then have "n \<in> set rest" "n \<notin> set (visited ?v)"
        using n v(3) by (auto simp: set_set_add)
      then show ?thesis using s'(6) by blast
    qed
    then show ?thesis using run s'(2,4,5) vis_rn grows_trans [OF sv s'(3)] by auto
  qed
qed


subsection \<open>The rounds\<close>

lemma ego_inv_mono:
  assumes "ego_inv l s" "l \<le> u" "next_level s = []"
  shows "ego_inv u s"
  using assms unfolding ego_inv_def by (auto intro: le_trans)

lemma ego_inv_next:
  assumes "ego_inv l s"
  shows "ego_inv (Suc l) \<lparr>eG = eG s, visited = visited s, next_level = []\<rparr>"
  using assms unfolding ego_inv_def by (auto intro: le_SucI)

lemma level_loop_inv:
  assumes en: "\<forall>xs. set (enum xs) = set xs" and ix: "index_ok vis"
    and "l \<le> u"
    and "ego_inv l \<lparr>eG = g, visited = vs, next_level = []\<rparr>"
    and "\<forall>n L. node_level g n = Some L \<longrightarrow> L < l"
    and "pending l cur \<lparr>eG = g, visited = vs, next_level = []\<rparr>"
    and "names_ok vis cur"
  shows "\<exists>g' vs'. level_loop enum vis [l..<u] cur (g, vs) = Inr (g', vs')
    \<and> ego_inv u \<lparr>eG = g', visited = vs', next_level = []\<rparr>
    \<and> (\<forall>n L. node_level g' n = Some L \<longrightarrow> L < u)
    \<and> grows \<lparr>eG = g, visited = vs, next_level = []\<rparr> \<lparr>eG = g', visited = vs', next_level = []\<rparr>
    \<and> (l < u \<and> cur \<noteq> [] \<and> length vs < max_nodes
         \<longrightarrow> (\<forall>n\<in>set cur. n \<notin> set vs \<longrightarrow> node_level g' n = Some l))"
  using assms(3-)
proof (induction "u - l" arbitrary: l cur g vs)
  case 0
  then have "l = u" by simp
  then show ?case using 0 by (auto simp: grows_refl)
next
  case (Suc d)
  then have lu: "l < u" by simp
  then have up: "[l..<u] = l # [Suc l..<u]" by (rule upt_conv_Cons)
  let ?s0 = "\<lparr>eG = g, visited = vs, next_level = []\<rparr>"
  show ?case
  proof (cases "cur = [] \<or> max_nodes \<le> length vs")
    case True
    then have "level_loop enum vis [l..<u] cur (g, vs) = Inr (g, vs)" using up by auto
    moreover have "ego_inv u ?s0" using ego_inv_mono [OF Suc.prems(2)] lu by simp
    moreover have "\<forall>n L. node_level g n = Some L \<longrightarrow> L < u" using Suc.prems(3) lu by fastforce
    ultimately show ?thesis using True by (auto simp: grows_refl)
  next
    case False
    have pe: "pending l (enum cur) ?s0" using Suc.prems(4) en by (simp add: pending_def)
    have ne: "names_ok vis (enum cur)" using Suc.prems(5) en by (simp add: names_ok_def)
    have n0: "names_ok vis (next_level ?s0)" by (simp add: names_ok_def)
    obtain s' where s': "visit_loop vis l (enum cur) ?s0 = Inr s'" "ego_inv l s'" "grows ?s0 s'"
      "set (enum cur) \<subseteq> set (visited s')" "names_ok vis (next_level s')"
      "\<forall>n\<in>set (enum cur). n \<notin> set (visited ?s0) \<longrightarrow> node_level (eG s') n = Some l"
      using visit_loop_inv [OF Suc.prems(2) pe ne ix n0] by blast
    let ?s1 = "\<lparr>eG = eG s', visited = visited s', next_level = []\<rparr>"
    have d: "d = u - Suc l" using Suc.hyps(2) by simp
    have i1: "ego_inv (Suc l) ?s1" using ego_inv_next [OF s'(2)] .
    have i2: "\<forall>n L. node_level (eG s') n = Some L \<longrightarrow> L < Suc l"
      using s'(2) unfolding ego_inv_def by (auto simp: less_Suc_eq_le)
    have i3: "pending (Suc l) (next_level s') ?s1"
      using s'(2) unfolding ego_inv_def pending_def by auto
    obtain g' vs' where f: "level_loop enum vis [Suc l..<u] (next_level s') (eG s', visited s')
          = Inr (g', vs')"
      "ego_inv u \<lparr>eG = g', visited = vs', next_level = []\<rparr>"
      "\<forall>n L. node_level g' n = Some L \<longrightarrow> L < u"
      "grows ?s1 \<lparr>eG = g', visited = vs', next_level = []\<rparr>"
      using Suc.hyps(1) [OF d _ i1 i2 i3 s'(5)] lu by auto
    have run: "level_loop enum vis [l..<u] cur (g, vs) = Inr (g', vs')"
      using False up s'(1) f(1) by simp
    have g1: "grows ?s0 ?s1" using s'(3) by (simp add: grows_def)
    have g2: "grows ?s0 \<lparr>eG = g', visited = vs', next_level = []\<rparr>"
      using grows_trans [OF g1 f(4)] .
    have "node_level g' n = Some l" if "n \<in> set cur" "n \<notin> set vs" for n
    proof -
      have "node_level (eG s') n = Some l" using s'(6) that en by simp
      then show ?thesis using f(4) by (simp add: grows_def)
    qed
    then show ?thesis using run f(2,3) g2 by auto
  qed
qed

lemma index_ok_init: "index_ok (init rd)"
  unfolding index_ok_def
proof (intro allI ballI)
  fix t n
  assume "n \<in> set (get_repos (topic_to_repos (init rd)) t)"
  then obtain r where "r \<in> set rd" "full_name r = n"
    using get_repos_names [of n rd t] by (auto simp: init_def)
  then show "repo_map (init rd) n \<noteq> None" by (auto simp: init_def build_repo_map_None)
qed

lemma ego_inv_empty: "ego_inv 0 \<lparr>eG = empty_graph, visited = [], next_level = []\<rparr>"
  by (simp add: ego_inv_def node_level_def empty_graph_def no_self_loops_def single_edges_def
      closed_edges_def)

lemma ego_traverse_inv:
  assumes st: "start_repo \<in> full_name ` set rd" and en: "\<forall>xs. set (enum xs) = set xs"
  shows "\<exists>g vs. ego_traverse enum (init rd) start_repo = Inr (g, vs)
    \<and> ego_inv 5 \<lparr>eG = g, visited = vs, next_level = []\<rparr>
    \<and> (\<forall>n L. node_level g n = Some L \<longrightarrow> L < 5)
    \<and> node_level g start_repo = Some 0"
proof -
  let ?vis = "init rd"
  let ?s0 = "\<lparr>eG = empty_graph, visited = [], next_level = []\<rparr>"
  have some: "repo_map ?vis start_repo \<noteq> None"
    using st by (simp add: init_def build_repo_map_None)
  have a: "\<forall>n L. node_level empty_graph n = Some L \<longrightarrow> L < 0"
    by (simp add: node_level_def empty_graph_def)
  have b: "pending 0 [start_repo] ?s0" by (simp add: pending_def)
  have c: "names_ok ?vis [start_repo]" using some by (simp add: names_ok_def)
  obtain g vs where r: "level_loop enum ?vis [0..<5] [start_repo] (empty_graph, []) = Inr (g, vs)"
    "ego_inv 5 \<lparr>eG = g, visited = vs, next_level = []\<rparr>"
    "\<forall>n L. node_level g n = Some L \<longrightarrow> L < 5"
    "0 < (5::nat) \<and> [start_repo] \<noteq> [] \<and> length ([]::string list) < max_nodes
         \<longrightarrow> (\<forall>n\<in>set [start_repo]. n \<notin> set [] \<longrightarrow> node_level g n = Some 0)"
    using level_loop_inv [OF en index_ok_init _ ego_inv_empty a b c, of 5] by auto
  have "node_level g start_repo = Some 0" using r(4) by (simp add: max_nodes_def)
  moreover have "ego_traverse enum ?vis start_repo = Inr (g, vs)"
    using some r(1) by (simp add: ego_traverse_def levels_def)
  ultimately show ?thesis using r(2,3) by blast
qed

section \<open>Levels and simple graphs\<close>


lemma build_4level_graph_fst:
  "ego_traverse enum vis start_repo = Inr (g, vs)
     \<Longrightarrow> fst (build_4level_graph enum vis start_repo) = Inr g"
  by (simp add: build_4level_graph_def)

text \<open>
  Claim C8. For a seed that names a record, and whatever the order in which the sets
  are enumerated, the traversal returns a graph in which no level exceeds 4 and every
  node with a level \<open>L\<close> of at least 1 has an edge to a node of level \<open>L - 1\<close>.
\<close>

theorem ego_levels_and_parents:
  assumes "start_repo \<in> full_name ` set rd" "\<forall>xs. set (enum xs) = set xs"
  shows "\<exists>g. fst (build_4level_graph enum (init rd) start_repo) = Inr g
    \<and> (\<forall>n L. node_level g n = Some L \<longrightarrow>
          L \<le> 4 \<and> (1 \<le> L \<longrightarrow> (\<exists>m. has_edge g n m \<and> node_level g m = Some (L - 1))))"
proof -
  obtain g vs where r: "ego_traverse enum (init rd) start_repo = Inr (g, vs)"
    "ego_inv 5 \<lparr>eG = g, visited = vs, next_level = []\<rparr>"
    "\<forall>n L. node_level g n = Some L \<longrightarrow> L < 5"
    using ego_traverse_inv [OF assms] by blast
  have par: "\<exists>m. has_edge g n m \<and> node_level g m = Some (L - 1)"
    if lv: "node_level g n = Some L" and pos: "1 \<le> L" for n L
  proof -
    obtain K where K: "L = Suc K" using pos by (cases L) auto
    have "\<forall>n L. node_level g n = Some (Suc L) \<longrightarrow> (\<exists>m. has_edge g n m \<and> node_level g m = Some L)"
      using r(2) by (simp add: ego_inv_def)
    then show ?thesis using lv K by simp
  qed
  have "L \<le> 4" if "node_level g n = Some L" for n L
    using r(3) that by fastforce
  then show ?thesis using build_4level_graph_fst [OF r(1)] par by blast
qed

theorem ego_levels_and_parents_witness:
  "''o/S'' \<in> full_name ` set chain_repos
   \<and> (\<exists>g. fst (build_4level_graph id (init chain_repos) ''o/S'') = Inr g
        \<and> node_level g ''o/A4'' = Some 4 \<and> (4::nat) \<le> 4 \<and> (1::nat) \<le> 4
        \<and> (\<exists>m. has_edge g ''o/A4'' m \<and> node_level g m = Some (4 - 1)))"
proof -
  have st: "''o/S'' \<in> full_name ` set chain_repos"
    by (simp add: chain_repos_def mk_repo_def)
  have en: "\<forall>xs::string list. set (id xs) = set xs" by simp
  obtain g where g: "fst (build_4level_graph id (init chain_repos) ''o/S'') = Inr g"
    "\<forall>n L. node_level g n = Some L \<longrightarrow>
          L \<le> 4 \<and> (1 \<le> L \<longrightarrow> (\<exists>m. has_edge g n m \<and> node_level g m = Some (L - 1)))"
    using ego_levels_and_parents [OF st en] by blast
  have "(case fst (build_4level_graph id (init chain_repos) ''o/S'') of
      Inl e \<Rightarrow> False | Inr g \<Rightarrow> node_level g ''o/A4'' = Some 4)"
    by code_simp
  then have l4: "node_level g ''o/A4'' = Some 4" using g(1) by simp
  then have "\<exists>m. has_edge g ''o/A4'' m \<and> node_level g m = Some (4 - 1)"
    using g(2) by fastforce
  then show ?thesis using st g(1) l4 by auto
qed

text \<open>
  Claim C3, as stated, fails for the global graph: the topic index lists a record once
  for each occurrence of a topic in its array, so a record that names a topic twice is
  paired with itself, and it gets an edge to itself when it has two topics.
\<close>

theorem full_graph_self_loop:
  "(case build_full_graph (init [loop_repo]) of
      Inl e \<Rightarrow> False
    | Inr g \<Rightarrow> edges g = [((''o/A'', ''o/A''), 2)])"
  by code_simp

lemma index_entry_distinct:
  assumes "distinct (map full_name rd)" "\<forall>r\<in>set rd. distinct (topics r)"
    "(t, l) \<in> set (build_topic_mapping rd)"
  shows "distinct l"
proof -
  have "l = map full_name (filter (\<lambda>r. t \<in> set (topics r)) rd)"
    using index_entry_get_repos [OF assms(3)] get_repos_build_distinct [OF assms(2)] by simp
  then show ?thesis using assms(1) by (simp add: distinct_map_filter)
qed

lemma no_self_loops_step:
  assumes "no_self_loops (G s)" "r1 \<noteq> r2" "try_pair rm t r1 r2 s = Inr s'"
  shows "no_self_loops (G s')"
proof -
  let ?k = "edge_key r1 r2"
  consider (seen) "s' = s"
    | (low) "s' = s\<lparr>evaluated := evaluated s @ [(t, ?k)]\<rparr>"
    | (add) a b where
        "s' = s\<lparr>evaluated := evaluated s @ [(t, ?k)],
                  G := add_edge (G s) r1 r2 (shared_topics a b),
                  added_edges := added_edges s @ [?k],
                  edge_count := edge_count s + 1\<rparr>"
    using try_pair_cases [OF assms(3)] by blast
  then show ?thesis
  proof cases
    case seen
    then show ?thesis using assms(1) by simp
  next
    case low
    then show ?thesis using assms(1) by simp
  next
    case add
    then show ?thesis using assms(1,2) by (simp add: no_self_loops_add_edge)
  qed
qed

lemma full_graph_no_self_loops:
  assumes "distinct (map full_name rd)" "\<forall>r\<in>set rd. distinct (topics r)"
    "build_full_state (init rd) = Inr s"
  shows "no_self_loops (G s)"
proof -
  let ?rm = "repo_map (init rd)" and ?tm = "topic_to_repos (init rd)"
  let ?s0 = "\<lparr>G = add_all_nodes (repo_data (init rd)), added_edges = [], edge_count = 0,
      evaluated = []\<rparr>"
  have run: "topic_loop ?rm ?tm ?s0 = Inr s"
    using assms(3) by (simp add: build_full_state_def)
  have i: "no_self_loops (G ?s0)"
    by (simp add: no_self_loops_def edges_add_all_nodes)
  show ?thesis
    using run i
  proof (rule topic_loop_inv [where P = "\<lambda>s. no_self_loops (G s)"])
    fix t l r1 r2 u u'
    assume a: "(t, l) \<in> set ?tm" "(r1, r2) \<in> set (pairs (take 8 l))" "no_self_loops (G u)"
      "try_pair ?rm t r1 r2 u = Inr u'"
    have "(t, l) \<in> set (build_topic_mapping rd)" using a(1) by (simp add: init_def)
    then have "distinct l" by (rule index_entry_distinct [OF assms(1,2)])
    then have dt: "distinct (take 8 l)" by simp
    have ne: "r1 \<noteq> r2" using pairs_distinct [OF dt a(2)] .
    show "no_self_loops (G u')" using no_self_loops_step [OF a(3) ne a(4)] .
  qed
qed

text \<open>
  Claim C3, amended. For every sequence of records the global graph stores each
  unordered pair of endpoints at most once and has both endpoints of every edge among
  its nodes; it has no edge from a node to itself when the names of the records are
  unique and no record names a topic twice. The ego network of a seed that names a
  record is a simple graph in all three respects, for every sequence of records.
\<close>

theorem graphs_simple:
  "(\<exists>g. build_full_graph (init rd) = Inr g \<and> single_edges g \<and> closed_edges g
        \<and> (distinct (map full_name rd) \<and> (\<forall>r\<in>set rd. distinct (topics r)) \<longrightarrow> no_self_loops g))
   \<and> (start_repo \<in> full_name ` set rd \<and> (\<forall>xs. set (enum xs) = set xs)
        \<longrightarrow> (\<exists>g. fst (build_4level_graph enum (init rd) start_repo) = Inr g
               \<and> no_self_loops g \<and> single_edges g \<and> closed_edges g))"
proof -
  obtain s where s: "build_full_state (init rd) = Inr s"
    "full_inv (repo_map (init rd)) (topic_to_repos (init rd)) s"
    using full_inv_final by blast
  have a: "single_edges (G s)" "closed_edges (G s)" using s(2) by (simp_all add: full_inv_def)
  have b: "distinct (map full_name rd) \<and> (\<forall>r\<in>set rd. distinct (topics r)) \<longrightarrow> no_self_loops (G s)"
    using full_graph_no_self_loops s(1) by blast
  have full: "\<exists>g. build_full_graph (init rd) = Inr g \<and> single_edges g \<and> closed_edges g
        \<and> (distinct (map full_name rd) \<and> (\<forall>r\<in>set rd. distinct (topics r)) \<longrightarrow> no_self_loops g)"
    using build_full_graph_G [OF s(1)] a b by blast
  have ego: "\<exists>g. fst (build_4level_graph enum (init rd) start_repo) = Inr g
               \<and> no_self_loops g \<and> single_edges g \<and> closed_edges g"
    if st: "start_repo \<in> full_name ` set rd" and en: "\<forall>xs. set (enum xs) = set xs"
  proof -
    obtain g vs where r: "ego_traverse enum (init rd) start_repo = Inr (g, vs)"
      "ego_inv 5 \<lparr>eG = g, visited = vs, next_level = []\<rparr>"
      using ego_traverse_inv [OF st en] by blast
    show ?thesis using build_4level_graph_fst [OF r(1)] r(2) by (auto simp: ego_inv_def)
  qed
  show ?thesis using full ego by blast
qed

theorem graphs_simple_witness:
  "distinct (map full_name abc_repos)
   \<and> distinct (topics (mk_repo ''o/A'' [''x'', ''y'']))
   \<and> distinct (topics (mk_repo ''o/B'' [''x'', ''y'']))
   \<and> distinct (topics (mk_repo ''o/C'' [''x'']))
   \<and> ''o/A'' \<in> full_name ` set abc_repos
   \<and> (\<exists>g. build_full_graph (init abc_repos) = Inr g \<and> ((''o/A'', ''o/B''), 2) \<in> set (edges g)
         \<and> no_self_loops g \<and> single_edges g \<and> closed_edges g)
   \<and> (\<exists>g. fst (build_4level_graph id (init abc_repos) ''o/A'') = Inr g
         \<and> ((''o/A'', ''o/B''), 1) \<in> set (edges g)
         \<and> no_self_loops g \<and> single_edges g \<and> closed_edges g)"
proof -
  have d: "distinct (map full_name abc_repos)" by (simp add: abc_repos_def mk_repo_def)
  have t: "\<forall>r\<in>set abc_repos. distinct (topics r)" by (simp add: abc_repos_def mk_repo_def)
  have st: "''o/A'' \<in> full_name ` set abc_repos" by (simp add: abc_repos_def mk_repo_def)
  have en: "\<forall>xs::string list. set (id xs) = set xs" by simp
  obtain g where g: "build_full_graph (init abc_repos) = Inr g" "single_edges g" "closed_edges g"
    "no_self_loops g"
    using graphs_simple [of abc_repos "''o/A''" id] d t by blast
  obtain h where h: "fst (build_4level_graph id (init abc_repos) ''o/A'') = Inr h"
    "no_self_loops h" "single_edges h" "closed_edges h"
    using graphs_simple [of abc_repos "''o/A''" id] st en by blast
  have "(case build_full_graph (init abc_repos) of Inl e \<Rightarrow> False
         | Inr g \<Rightarrow> ((''o/A'', ''o/B''), 2) \<in> set (edges g))"
    by code_simp
  then have eg: "((''o/A'', ''o/B''), 2) \<in> set (edges g)" using g(1) by simp
  have "(case fst (build_4level_graph id (init abc_repos) ''o/A'') of Inl e \<Rightarrow> False
         | Inr g \<Rightarrow> ((''o/A'', ''o/B''), 1) \<in> set (edges g))"
    by code_simp
  then have eh: "((''o/A'', ''o/B''), 1) \<in> set (edges h)" using h(1) by simp
  have tt: "distinct (topics (mk_repo ''o/A'' [''x'', ''y'']))"
    "distinct (topics (mk_repo ''o/B'' [''x'', ''y'']))"
    "distinct (topics (mk_repo ''o/C'' [''x'']))"
    by (simp_all add: mk_repo_def)
  show ?thesis using d tt st g eg h eh by blast
qed

section \<open>The node budget of the ego network\<close>


lemma try_candidate_core: "frontier_of (try_candidate rn rr s) = try_candidate_core rr (frontier_of s)"
  by (simp add: frontier_of_def try_candidate_def try_candidate_core_def)

lemma fold_candidates_core:
  "frontier_of (fold (try_candidate rn) rs s) = fold try_candidate_core rs (frontier_of s)"
  by (induction rs arbitrary: s) (simp_all add: try_candidate_core)

lemma fold_topics_core:
  "frontier_of (fold (expand_topic tm rn) ts s)
     = fold (\<lambda>topic. fold try_candidate_core (take 5 (get_repos tm topic))) ts (frontier_of s)"
  by (induction ts arbitrary: s) (simp_all add: expand_topic_def fold_candidates_core)

lemma expand_repo_core: "frontier_of (expand_repo tm rn r s) = expand_core tm r (frontier_of s)"
  by (simp add: expand_repo_def expand_core_def fold_topics_core)

lemma visit_loop_core:
  "visit_loop vis lvl cur s = Inr s' \<Longrightarrow> visit_core vis cur (frontier_of s) = Some (frontier_of s')"
proof (induction cur arbitrary: s)
  case Nil
  then show ?case by simp
next
  case (Cons rn rest)
  show ?case
  proof (cases "rn \<in> set (visited s)")
    case True
    then show ?thesis using Cons by (simp add: frontier_of_def)
  next
    case False
    then obtain r where r: "repo_map vis rn = Some r"
      using Cons.prems by (cases "repo_map vis rn") (simp_all add: Let_def)
    let ?u = "s\<lparr>visited := set_add rn (visited s),
                 eG := add_node (eG s) rn (ego_attrs r lvl)\<rparr>"
    have run: "visit_loop vis lvl rest (expand_repo (topic_to_repos vis) rn r ?u) = Inr s'"
      using Cons.prems False r by (simp add: Let_def)
    have "frontier_of (expand_repo (topic_to_repos vis) rn r ?u)
        = expand_core (topic_to_repos vis) r (set_add rn (visited s), next_level s)"
      by (simp add: expand_repo_core) (simp add: frontier_of_def)
    then show ?thesis
      using Cons.IH [OF run] False r by (simp add: frontier_of_def)
  qed
qed

lemma two_rounds_facts:
  "(case two_rounds_core of
      None \<Rightarrow> False
    | Some vn \<Rightarrow> snd vn \<noteq> [] \<and> length (fst vn) < max_nodes
                \<and> max_nodes < length (remdups (snd vn @ fst vn)))"
  by code_simp

text \<open>
  Claim C1 fails on the code in its first half. \<^verbatim>\<open>visited.add(repo_name)\<close> runs for
  every member of \<^verbatim>\<open>current_level\<close> that is not yet visited; \<^verbatim>\<open>max_nodes\<close> is tested
  only at the start of a round and before a candidate is put into \<^verbatim>\<open>next_level\<close>. On
  the input of 151 records the round of level 2 starts with 26 finalized nodes and
  finalizes all of its 125 new members, so that more than 150 nodes are finalized. The
  second half of the claim holds: \<open>ego_traverse_inv\<close> gives the seed the level 0.
\<close>

theorem visited_exceeds_max_nodes:
  "\<exists>g vs. ego_traverse id (init wide_repos) ''z/s'' = Inr (g, vs) \<and> max_nodes < length vs"
proof -
  let ?V = "init wide_repos"
  let ?s00 = "\<lparr>eG = empty_graph, visited = [], next_level = []\<rparr>"
  have st: "''z/s'' \<in> full_name ` set wide_repos"
    by (simp add: wide_repos_def seed_repo_def mk_repo_def)
  then have some: "repo_map ?V ''z/s'' \<noteq> None" by (simp add: init_def build_repo_map_None)
  have en: "\<forall>xs::string list. set (id xs) = set xs" by simp
  have p0: "pending 0 [''z/s''] ?s00" by (simp add: pending_def)
  have n0: "names_ok ?V [''z/s'']" using some by (simp add: names_ok_def)
  have e0: "names_ok ?V (next_level ?s00)" by (simp add: names_ok_def)
  obtain s0 where s0: "visit_loop ?V 0 [''z/s''] ?s00 = Inr s0" "ego_inv 0 s0"
    "names_ok ?V (next_level s0)"
    using visit_loop_inv [OF ego_inv_empty p0 n0 index_ok_init e0] by blast
  have c0: "visit_core ?V [''z/s''] ([], []) = Some (visited s0, next_level s0)"
    using visit_loop_core [OF s0(1)] by (simp add: frontier_of_def)
  let ?s10 = "\<lparr>eG = eG s0, visited = visited s0, next_level = []\<rparr>"
  have two: "two_rounds_core =
      (if next_level s0 = [] \<or> max_nodes \<le> length (visited s0) then None
       else visit_core ?V (next_level s0) (visited s0, []))"
    using c0 by (simp add: two_rounds_core_def Let_def)
  have go0: "\<not> (next_level s0 = [] \<or> max_nodes \<le> length (visited s0))"
    using two two_rounds_facts by (auto split: if_splits)
  have i1: "ego_inv 1 ?s10" using ego_inv_next [OF s0(2)] by simp
  have p1: "pending 1 (next_level s0) ?s10"
    using s0(2) unfolding ego_inv_def pending_def by auto
  have e1: "names_ok ?V (next_level ?s10)" by (simp add: names_ok_def)
  obtain s1 where s1: "visit_loop ?V 1 (next_level s0) ?s10 = Inr s1" "ego_inv 1 s1"
    "names_ok ?V (next_level s1)"
    using visit_loop_inv [OF i1 p1 s0(3) index_ok_init e1] by blast
  have c1: "two_rounds_core = Some (visited s1, next_level s1)"
    using two go0 visit_loop_core [OF s1(1)] by (simp add: frontier_of_def)
  have f: "next_level s1 \<noteq> [] \<and> length (visited s1) < max_nodes
    \<and> max_nodes < length (remdups (next_level s1 @ visited s1))"
    using two_rounds_facts unfolding c1 by simp
  have f1: "next_level s1 \<noteq> []" "length (visited s1) < max_nodes"
    "max_nodes < length (remdups (next_level s1 @ visited s1))"
    using f by blast+
  let ?s20 = "\<lparr>eG = eG s1, visited = visited s1, next_level = []\<rparr>"
  have i2: "ego_inv 2 ?s20" using ego_inv_next [OF s1(2)] by (simp add: numeral_2_eq_2)
  have l2: "\<forall>n L. node_level (eG s1) n = Some L \<longrightarrow> L < 2"
    using s1(2) unfolding ego_inv_def by (auto simp: less_Suc_eq_le numeral_2_eq_2)
  have p2: "pending 2 (next_level s1) ?s20"
    using s1(2) unfolding ego_inv_def pending_def by auto
  have lu: "(2::nat) \<le> 5" by simp
  obtain g vs where r: "level_loop id ?V [2..<5] (next_level s1) (eG s1, visited s1) = Inr (g, vs)"
    "ego_inv 5 \<lparr>eG = g, visited = vs, next_level = []\<rparr>"
    "grows ?s20 \<lparr>eG = g, visited = vs, next_level = []\<rparr>"
    "(2::nat) < 5 \<and> next_level s1 \<noteq> [] \<and> length (visited s1) < max_nodes
       \<longrightarrow> (\<forall>n\<in>set (next_level s1). n \<notin> set (visited s1) \<longrightarrow> node_level g n = Some 2)"
    using level_loop_inv [OF en index_ok_init lu i2 l2 p2 s1(3)] by blast
  have old: "set (visited s1) \<subseteq> set vs" using r(3) by (simp add: grows_def)
  have j1: "\<forall>n. n \<in> set vs \<longleftrightarrow> node_level g n \<noteq> None" and dv: "distinct vs"
    using r(2) by (simp_all add: ego_inv_def)
  have new: "set (next_level s1) \<subseteq> set vs"
  proof
    fix n
    assume n: "n \<in> set (next_level s1)"
    show "n \<in> set vs"
    proof (cases "n \<in> set (visited s1)")
      case True
      then show ?thesis using old by blast
    next
      case False
      then have "node_level g n = Some 2" using r(4) f1 n by simp
      then show ?thesis using j1 by simp
    qed
  qed
  have "length (remdups (next_level s1 @ visited s1)) = card (set (next_level s1 @ visited s1))"
    by (simp add: length_remdups_card_conv)
  also have "\<dots> \<le> card (set vs)" using old new by (intro card_mono) auto
  also have "\<dots> = length vs" using dv by (simp add: distinct_card)
  finally have big: "max_nodes < length vs" using f1(3) by simp
  have up: "[0..<5] = 0 # 1 # [2..<5]" by (simp add: upt_rec)
  have "level_loop id ?V [0..<5] [''z/s''] (empty_graph, []) = Inr (g, vs)"
    unfolding up using s0(1) s1(1) go0 f1 r(1) by (simp add: max_nodes_def)
  then have "ego_traverse id ?V ''z/s'' = Inr (g, vs)"
    using some by (simp add: ego_traverse_def levels_def)
  then show ?thesis using big by blast
qed

section \<open>Completeness of the global graph below the caps\<close>


lemma later_refl: "later s s"
  by (simp add: later_def)

lemma later_trans: "later s u \<Longrightarrow> later u v \<Longrightarrow> later s v"
  unfolding later_def by auto

lemma covered_later: "covered s p \<Longrightarrow> later s s' \<Longrightarrow> covered s' p"
  unfolding covered_def later_def by auto

lemma try_pair_later_covers:
  assumes "try_pair rm t r1 r2 s = Inr s'"
  shows "later s s' \<and> covered s' (r1, r2)"
proof -
  let ?k = "edge_key r1 r2"
  consider (seen) "s' = s" "?k \<in> set (added_edges s)"
    | (low) "s' = s\<lparr>evaluated := evaluated s @ [(t, ?k)]\<rparr>"
    | (add) a b where
        "s' = s\<lparr>evaluated := evaluated s @ [(t, ?k)],
                  G := add_edge (G s) r1 r2 (shared_topics a b),
                  added_edges := added_edges s @ [?k],
                  edge_count := edge_count s + 1\<rparr>"
    using try_pair_cases [OF assms] by blast
  then show ?thesis
  proof cases
    case seen
    then show ?thesis by (simp add: later_def covered_def)
  next
    case low
    then show ?thesis by (auto simp: later_def covered_def)
  next
    case add
    then show ?thesis by (auto simp: later_def covered_def)
  qed
qed

lemma inner_loop_later:
  assumes "inner_loop rm t r1 rs s = Inr s'"
  shows "later s s'"
  using assms later_refl [of s]
proof (rule inner_loop_inv [where P = "later s"])
  fix r2 u u'
  assume "later s u" "try_pair rm t r1 r2 u = Inr u'"
  then show "later s u'" using try_pair_later_covers later_trans by blast
qed

lemma outer_loop_later:
  assumes "outer_loop rm t rs s = Inr s'"
  shows "later s s'"
  using assms later_refl [of s]
proof (rule outer_loop_inv [where P = "later s"])
  fix r1 r2 u u'
  assume "later s u" "try_pair rm t r1 r2 u = Inr u'"
  then show "later s u'" using try_pair_later_covers later_trans by blast
qed

lemma topic_loop_later:
  assumes "topic_loop rm tm s = Inr s'"
  shows "later s s'"
  using assms later_refl [of s]
proof (rule topic_loop_inv [where P = "later s"])
  fix t r1 r2 u u'
  assume "later s u" "try_pair rm t r1 r2 u = Inr u'"
  then show "later s u'" using try_pair_later_covers later_trans by blast
qed

lemma inner_loop_covers:
  assumes "inner_loop rm t r1 rs s = Inr s'"
  shows "\<forall>r2\<in>set rs. covered s' (r1, r2)"
  using assms
proof (induction rs arbitrary: s)
  case Nil
  then show ?case by simp
next
  case (Cons r2 rs)
  show ?case
  proof (cases "max_edges \<le> edge_count s")
    case True
    then have "s' = s" using Cons.prems by simp
    then show ?thesis using True by (simp add: covered_def)
  next
    case False
    then obtain u where u: "try_pair rm t r1 r2 s = Inr u" "inner_loop rm t r1 rs u = Inr s'"
      using Cons.prems by (auto split: sum.splits)
    have "covered u (r1, r2)" using try_pair_later_covers [OF u(1)] by simp
    then have "covered s' (r1, r2)" using covered_later inner_loop_later [OF u(2)] by blast
    then show ?thesis using Cons.IH [OF u(2)] by simp
  qed
qed

lemma outer_loop_covers:
  assumes "outer_loop rm t rs s = Inr s'"
  shows "\<forall>p\<in>set (pairs rs). covered s' p"
  using assms
proof (induction rs arbitrary: s)
  case Nil
  then show ?case by simp
next
  case (Cons r1 rs)
  obtain u where u: "inner_loop rm t r1 rs s = Inr u"
    using Cons.prems by (auto split: sum.splits)
  have cu: "\<forall>r2\<in>set rs. covered u (r1, r2)" using inner_loop_covers [OF u] .
  show ?case
  proof (cases "max_edges \<le> edge_count u")
    case True
    then have "s' = u" using Cons.prems u by simp
    then show ?thesis using True by (simp add: covered_def)
  next
    case False
    then have run: "outer_loop rm t rs u = Inr s'" using Cons.prems u by simp
    have "\<forall>r2\<in>set rs. covered s' (r1, r2)"
      using cu covered_later outer_loop_later [OF run] by blast
    then show ?thesis using Cons.IH [OF run] by auto
  qed
qed

lemma topic_loop_covers:
  assumes "topic_loop rm tm s = Inr s'"
  shows "\<forall>tl\<in>set tm. \<forall>p\<in>set (pairs (take 8 (snd tl))). covered s' p"
  using assms
proof (induction tm arbitrary: s)
  case Nil
  then show ?case by simp
next
  case (Cons tl tm)
  obtain t l where tl: "tl = (t, l)" by (cases tl)
  have tk: "(if 8 < length l then take 8 l else l) = take 8 l" by simp
  obtain u where u: "outer_loop rm t (take 8 l) s = Inr u" "topic_loop rm tm u = Inr s'"
    using Cons.prems unfolding tl topic_loop.simps Let_def tk by (auto split: sum.splits)
  have "\<forall>p\<in>set (pairs (take 8 l)). covered u p" using outer_loop_covers [OF u(1)] .
  then have "\<forall>p\<in>set (pairs (take 8 l)). covered s' p"
    using covered_later topic_loop_later [OF u(2)] by blast
  then show ?case using Cons.IH [OF u(2)] tl by simp
qed

lemma pairs_complete:
  "a \<in> set xs \<Longrightarrow> b \<in> set xs \<Longrightarrow> a \<noteq> b \<Longrightarrow> (a, b) \<in> set (pairs xs) \<or> (b, a) \<in> set (pairs xs)"
  by (induction xs) auto


lemma edge_key_min_max: "edge_key x y = (min x y, max x y)"
  by (auto simp: edge_key_def min_def max_def)

lemma sharing_pairs_finite: "finite (sharing_pairs rd)"
proof -
  have "sharing_pairs rd \<subseteq> Pow (set rd)" by (auto simp: sharing_pairs_def)
  then show ?thesis by (rule finite_subset) simp
qed

lemma sharing_keys_card:
  "card {edge_key (full_name a) (full_name b) | a b.
           a \<in> set rd \<and> b \<in> set rd \<and> a \<noteq> b \<and> 2 \<le> shared_topics a b}
     \<le> card (sharing_pairs rd)"
proof -
  let ?f = "\<lambda>S. (Min (full_name ` S), Max (full_name ` S))"
  have "{edge_key (full_name a) (full_name b) | a b.
           a \<in> set rd \<and> b \<in> set rd \<and> a \<noteq> b \<and> 2 \<le> shared_topics a b}
        \<subseteq> ?f ` sharing_pairs rd"
  proof
    fix k
    assume "k \<in> {edge_key (full_name a) (full_name b) | a b.
           a \<in> set rd \<and> b \<in> set rd \<and> a \<noteq> b \<and> 2 \<le> shared_topics a b}"
    then obtain a b where ab: "k = edge_key (full_name a) (full_name b)" "a \<in> set rd"
      "b \<in> set rd" "a \<noteq> b" "2 \<le> shared_topics a b" by blast
    have "{a, b} \<in> sharing_pairs rd" using ab unfolding sharing_pairs_def by blast
    moreover have "?f {a, b} = k" using ab(1) by (simp add: edge_key_min_max)
    ultimately show "k \<in> ?f ` sharing_pairs rd" by blast
  qed
  then have "card {edge_key (full_name a) (full_name b) | a b.
           a \<in> set rd \<and> b \<in> set rd \<and> a \<noteq> b \<and> 2 \<le> shared_topics a b}
        \<le> card (?f ` sharing_pairs rd)"
    by (intro card_mono finite_imageI sharing_pairs_finite)
  also have "\<dots> \<le> card (sharing_pairs rd)" by (intro card_image_le sharing_pairs_finite)
  finally show ?thesis .
qed

text \<open>
  With unique names and duplicate-free topic arrays, every recorded key is the key of
  two different records with at least two topics in common.
\<close>

lemma added_edges_sharing:
  assumes un: "distinct (map full_name rd)" and dt: "\<forall>r\<in>set rd. distinct (topics r)"
    and inv: "full_inv (repo_map (init rd)) (topic_to_repos (init rd)) s"
    and k: "k \<in> set (added_edges s)"
  shows "\<exists>a b. k = edge_key (full_name a) (full_name b)
           \<and> a \<in> set rd \<and> b \<in> set rd \<and> a \<noteq> b \<and> 2 \<le> shared_topics a b"
proof -
  let ?rm = "repo_map (init rd)" and ?tm = "topic_to_repos (init rd)"
  have ad: "added_edges s = map snd (filter (\<lambda>e. 2 \<le> key_shared ?rm (snd e)) (evaluated s))"
    using inv unfolding full_inv_def by blast
  have ev: "\<forall>e\<in>set (evaluated s). \<exists>l r1 r2. (fst e, l) \<in> set ?tm
            \<and> (r1, r2) \<in> set (pairs (take 8 l)) \<and> snd e = edge_key r1 r2"
    using inv unfolding full_inv_def by blast
  have "k \<in> snd ` set (filter (\<lambda>e. 2 \<le> key_shared ?rm (snd e)) (evaluated s))"
    using k unfolding ad by simp
  then obtain e where e0: "e \<in> set (filter (\<lambda>e. 2 \<le> key_shared ?rm (snd e)) (evaluated s))"
    "k = snd e" by (rule imageE)
  have e: "e \<in> set (evaluated s)" "2 \<le> key_shared ?rm (snd e)" using e0(1) by simp_all
  have "\<exists>l r1 r2. (fst e, l) \<in> set ?tm
            \<and> (r1, r2) \<in> set (pairs (take 8 l)) \<and> snd e = edge_key r1 r2"
    using ev e(1) by (rule bspec)
  then obtain l r1 r2 where l: "(fst e, l) \<in> set ?tm" "(r1, r2) \<in> set (pairs (take 8 l))"
    "snd e = edge_key r1 r2"
    by (elim exE conjE)
  have lt: "(fst e, l) \<in> set (build_topic_mapping rd)" using l(1) by (simp add: init_def)
  have dl: "distinct (take 8 l)" using index_entry_distinct [OF un dt lt] by simp
  have ne: "r1 \<noteq> r2" using pairs_distinct [OF dl l(2)] .
  have m: "r1 \<in> set l" "r2 \<in> set l" using pairs_members [OF l(2)] by (auto dest: in_set_takeD)
  obtain a where a: "a \<in> set rd" "full_name a = r1"
    using index_entry_names [OF lt m(1)] by (elim bexE conjE)
  obtain b where b: "b \<in> set rd" "full_name b = r2"
    using index_entry_names [OF lt m(2)] by (elim bexE conjE)
  have rma: "?rm r1 = Some a" using build_repo_map_unique [OF un a(1)] a(2) by (simp add: init_def)
  have rmb: "?rm r2 = Some b" using build_repo_map_unique [OF un b(1)] b(2) by (simp add: init_def)
  have sh: "2 \<le> shared_topics a b"
    using e(2) key_shared_edge_key [OF rma rmb] unfolding l(3) by simp
  have ab: "a \<noteq> b" using ne a(2) b(2) by auto
  have "k = edge_key (full_name a) (full_name b)" using e0(2) l(3) a(2) b(2) by simp
  then show ?thesis using a(1) b(1) ab sh by (intro exI conjI)
qed

lemma shared_topic_exists:
  assumes "2 \<le> shared_topics a b"
  shows "\<exists>t. t \<in> set (topics a) \<and> t \<in> set (topics b)"
proof -
  have "set (topics a) \<inter> set (topics b) \<noteq> {}"
  proof
    assume "set (topics a) \<inter> set (topics b) = {}"
    then have "shared_topics a b = 0" by (simp add: shared_topics_def)
    then show False using assms by simp
  qed
  then show ?thesis by blast
qed

lemma get_repos_member:
  assumes "r \<in> set rd" "t \<in> set (topics r)"
  shows "full_name r \<in> set (get_repos (build_topic_mapping rd) t)"
proof -
  have "count_list (topics r) t \<noteq> 0" using assms(2) by (simp add: count_list_0_iff)
  then have "full_name r \<in> set (replicate (count_list (topics r) t) (full_name r))" by simp
  then show ?thesis using assms(1) unfolding get_repos_build by auto
qed

lemma get_repos_entry:
  assumes "n \<in> set (get_repos tm t)"
  shows "(t, get_repos tm t) \<in> set tm"
proof (cases "map_of tm t")
  case None
  then show ?thesis using assms by (simp add: get_repos_def)
next
  case (Some l)
  then show ?thesis by (auto simp: get_repos_def dest: map_of_SomeD)
qed

text \<open>
  Claim C5, amended. Every edge of the global graph carries the number of topics that
  the records kept under its endpoints' names share, which is two at least; when the
  names of the records are unique, no two records that share fewer than two topics
  are joined. When the names of the records are unique and no record names a topic
  twice, when further no topic lists more than 8 records and at most 1000 unordered
  pairs of records share two topics or more, every such pair has its edge.
\<close>

theorem full_graph_complete_below_caps:
  "\<exists>g. build_full_graph (init rd) = Inr g
     \<and> edges_weighed (repo_map (init rd)) g
     \<and> (distinct (map full_name rd) \<longrightarrow>
          (\<forall>a\<in>set rd. \<forall>b\<in>set rd. has_edge g (full_name a) (full_name b)
              \<longrightarrow> 2 \<le> shared_topics a b))
     \<and> (distinct (map full_name rd) \<and> (\<forall>r\<in>set rd. distinct (topics r))
          \<and> (\<forall>tl\<in>set (topic_to_repos (init rd)). length (snd tl) \<le> 8)
          \<and> card (sharing_pairs rd) \<le> 1000
        \<longrightarrow> (\<forall>a\<in>set rd. \<forall>b\<in>set rd. a \<noteq> b \<and> 2 \<le> shared_topics a b
              \<longrightarrow> has_edge g (full_name a) (full_name b)))"
proof -
  let ?rm = "repo_map (init rd)" and ?tm = "topic_to_repos (init rd)"
  let ?Q = "{edge_key (full_name a) (full_name b) | a b.
           a \<in> set rd \<and> b \<in> set rd \<and> a \<noteq> b \<and> 2 \<le> shared_topics a b}"
  obtain s where s: "build_full_state (init rd) = Inr s" "full_inv ?rm ?tm s"
    using full_inv_final by blast
  have g: "build_full_graph (init rd) = Inr (G s)" using build_full_graph_G [OF s(1)] .
  have w: "edges_weighed ?rm (G s)" using s(2) by (simp add: full_inv_def)
  have part1: "2 \<le> shared_topics a b"
    if un: "distinct (map full_name rd)" and a: "a \<in> set rd" and b: "b \<in> set rd"
      and he: "has_edge (G s) (full_name a) (full_name b)" for a b
  proof -
    have rm: "?rm (full_name a) = Some a" "?rm (full_name b) = Some b"
      using build_repo_map_unique [OF un] a b by (auto simp: init_def)
    obtain e where e: "e \<in> set (edges (G s))"
      "fst e = (full_name a, full_name b) \<or> fst e = (full_name b, full_name a)"
      using he unfolding has_edge_def by auto
    obtain x y where xy: "?rm (fst (fst e)) = Some x" "?rm (snd (fst e)) = Some y"
      "2 \<le> snd e" "snd e = card (set (topics x) \<inter> set (topics y))"
      using w e(1) unfolding edges_weighed_def by blast
    from e(2) show ?thesis
    proof
      assume "fst e = (full_name a, full_name b)"
      then have "x = a" "y = b" using xy rm by simp_all
      then show ?thesis using xy by (simp add: shared_topics_def)
    next
      assume "fst e = (full_name b, full_name a)"
      then have "x = b" "y = a" using xy rm by simp_all
      then show ?thesis using xy by (simp add: shared_topics_def Int_commute)
    qed
  qed
  have part2: "has_edge (G s) (full_name a) (full_name b)"
    if un: "distinct (map full_name rd)" and dt: "\<forall>r\<in>set rd. distinct (topics r)"
      and len: "\<forall>tl\<in>set ?tm. length (snd tl) \<le> 8" and cap: "card (sharing_pairs rd) \<le> 1000"
      and a: "a \<in> set rd" and b: "b \<in> set rd" and ne: "a \<noteq> b"
      and sh: "2 \<le> shared_topics a b" for a b
  proof -
    let ?k = "edge_key (full_name a) (full_name b)"
    have rm: "?rm (full_name a) = Some a" "?rm (full_name b) = Some b"
      using build_repo_map_unique [OF un] a b by (auto simp: init_def)
    have nn: "full_name a \<noteq> full_name b"
      using un a b ne by (auto simp: distinct_map inj_on_def)
    obtain t where t: "t \<in> set (topics a)" "t \<in> set (topics b)"
      using shared_topic_exists [OF sh] by blast
    let ?l = "get_repos ?tm t"
    have mem: "full_name a \<in> set ?l" "full_name b \<in> set ?l"
      using get_repos_member a b t by (simp_all add: init_def)
    have ent: "(t, ?l) \<in> set ?tm" using get_repos_entry mem(1) by blast
    then have "length (snd (t, ?l)) \<le> 8" using len by blast
    then have "length ?l \<le> 8" by simp
    then have tk: "take 8 ?l = ?l" by simp
    have cov: "\<forall>tl\<in>set ?tm. \<forall>p\<in>set (pairs (take 8 (snd tl))). covered s p"
      using topic_loop_covers s(1) unfolding build_full_state_def by blast
    have "(full_name a, full_name b) \<in> set (pairs ?l) \<or> (full_name b, full_name a) \<in> set (pairs ?l)"
      using pairs_complete [OF mem nn] .
    moreover have "\<forall>p\<in>set (pairs ?l). covered s p"
    proof -
      have "\<forall>p\<in>set (pairs (take 8 (snd (t, ?l)))). covered s p" using cov ent by blast
      then show ?thesis using tk by simp
    qed
    ultimately have "covered s (full_name a, full_name b) \<or> covered s (full_name b, full_name a)"
      by blast
    then have c: "?k \<in> set (added_edges s) \<or> ?k \<in> snd ` set (evaluated s)
        \<or> max_edges \<le> edge_count s"
      using edge_key_commute [of "full_name a" "full_name b"] by (auto simp: covered_def)
    have ad: "added_edges s = map snd (filter (\<lambda>e. 2 \<le> key_shared ?rm (snd e)) (evaluated s))"
      "distinct (added_edges s)" "length (added_edges s) = edge_count s"
      "\<forall>k\<in>set (added_edges s). has_edge (G s) (fst k) (snd k)"
      using s(2) unfolding full_inv_def by blast+
    have ks: "2 \<le> key_shared ?rm ?k" using key_shared_edge_key [OF rm] sh by simp
    have inQ: "?k \<in> ?Q" using a b ne sh by blast
    have "?k \<in> set (added_edges s)"
    proof -
      consider "?k \<in> set (added_edges s)" | "?k \<in> snd ` set (evaluated s)"
        | "max_edges \<le> edge_count s" using c by blast
      then show ?thesis
      proof cases
        case 1
        then show ?thesis .
      next
        case 2
        then obtain e where "e \<in> set (evaluated s)" "snd e = ?k" by auto
        then have "e \<in> set (filter (\<lambda>e. 2 \<le> key_shared ?rm (snd e)) (evaluated s))"
          using ks by simp
        then have "?k \<in> snd ` set (filter (\<lambda>e. 2 \<le> key_shared ?rm (snd e)) (evaluated s))"
          using \<open>snd e = ?k\<close> by (metis imageI)
        then show ?thesis using ad(1) by simp
      next
        case 3
        have sub: "set (added_edges s) \<subseteq> ?Q"
        proof
          fix x
          assume "x \<in> set (added_edges s)"
          then have "\<exists>a b. x = edge_key (full_name a) (full_name b)
              \<and> a \<in> set rd \<and> b \<in> set rd \<and> a \<noteq> b \<and> 2 \<le> shared_topics a b"
            by (rule added_edges_sharing [OF un dt s(2)])
          then show "x \<in> ?Q" by simp
        qed
        have fin: "finite ?Q"
        proof -
          have "?Q \<subseteq> (\<lambda>(a, b). edge_key (full_name a) (full_name b)) ` (set rd \<times> set rd)"
            by auto
          then show ?thesis by (rule finite_subset) simp
        qed
        have "card ?Q \<le> 1000" using sharing_keys_card [of rd] cap by simp
        moreover have "1000 \<le> card (set (added_edges s))"
          using 3 ad(2,3) by (simp add: distinct_card max_edges_def)
        moreover have "card (set (added_edges s)) \<le> card ?Q" using sub fin by (rule card_mono [rotated])
        ultimately have "card (set (added_edges s)) = card ?Q" by simp
        then have "set (added_edges s) = ?Q" using sub fin by (intro card_subset_eq)
        then show ?thesis using inQ by simp
      qed
    qed
    then have "has_edge (G s) (fst ?k) (snd ?k)" using ad(4) by blast
    then show ?thesis by (simp add: has_edge_edge_key)
  qed
  have p1: "distinct (map full_name rd) \<longrightarrow>
          (\<forall>a\<in>set rd. \<forall>b\<in>set rd. has_edge (G s) (full_name a) (full_name b)
              \<longrightarrow> 2 \<le> shared_topics a b)"
  proof (intro impI ballI)
    fix a b
    assume "distinct (map full_name rd)" "a \<in> set rd" "b \<in> set rd"
      "has_edge (G s) (full_name a) (full_name b)"
    then show "2 \<le> shared_topics a b" by (rule part1)
  qed
  have p2: "distinct (map full_name rd) \<and> (\<forall>r\<in>set rd. distinct (topics r))
          \<and> (\<forall>tl\<in>set ?tm. length (snd tl) \<le> 8)
          \<and> card (sharing_pairs rd) \<le> 1000
        \<longrightarrow> (\<forall>a\<in>set rd. \<forall>b\<in>set rd. a \<noteq> b \<and> 2 \<le> shared_topics a b
              \<longrightarrow> has_edge (G s) (full_name a) (full_name b))"
  proof (intro impI ballI, elim conjE)
    fix a b
    assume "distinct (map full_name rd)" "\<forall>r\<in>set rd. distinct (topics r)"
      "\<forall>tl\<in>set ?tm. length (snd tl) \<le> 8" "card (sharing_pairs rd) \<le> 1000"
      "a \<in> set rd" "b \<in> set rd" "a \<noteq> b" "2 \<le> shared_topics a b"
    then show "has_edge (G s) (full_name a) (full_name b)" by (rule part2)
  qed
  show ?thesis using g w p1 p2 by (intro exI [of _ "G s"] conjI)
qed

lemma abc_index: "topic_to_repos (init abc_repos)
    = [(''x'', [''o/A'', ''o/B'', ''o/C'']), (''y'', [''o/A'', ''o/B''])]"
  by (simp add: init_def build_topic_mapping_def add_repo_topics_def abc_repos_def mk_repo_def)

lemma sharing_pairs_card_le: "card (sharing_pairs rd) \<le> 2 ^ length rd"
proof -
  have "sharing_pairs rd \<subseteq> Pow (set rd)" by (auto simp: sharing_pairs_def)
  then have "card (sharing_pairs rd) \<le> card (Pow (set rd))" by (intro card_mono) simp_all
  also have "\<dots> = 2 ^ card (set rd)" by (simp add: card_Pow)
  also have "\<dots> \<le> 2 ^ length rd" by (intro power_increasing card_length) simp
  finally show ?thesis .
qed

theorem full_graph_complete_below_caps_witness:
  "distinct (map full_name abc_repos)
   \<and> distinct (topics (mk_repo ''o/A'' [''x'', ''y'']))
   \<and> distinct (topics (mk_repo ''o/B'' [''x'', ''y'']))
   \<and> distinct (topics (mk_repo ''o/C'' [''x'']))
   \<and> topic_to_repos (init abc_repos)
        = [(''x'', [''o/A'', ''o/B'', ''o/C'']), (''y'', [''o/A'', ''o/B''])]
   \<and> card (sharing_pairs abc_repos) \<le> 1000
   \<and> mk_repo ''o/A'' [''x'', ''y''] \<in> set abc_repos
   \<and> mk_repo ''o/B'' [''x'', ''y''] \<in> set abc_repos
   \<and> mk_repo ''o/A'' [''x'', ''y''] \<noteq> mk_repo ''o/B'' [''x'', ''y'']
   \<and> 2 \<le> shared_topics (mk_repo ''o/A'' [''x'', ''y'']) (mk_repo ''o/B'' [''x'', ''y''])
   \<and> (\<exists>g. build_full_graph (init abc_repos) = Inr g \<and> has_edge g ''o/A'' ''o/B'')"
proof -
  let ?A = "mk_repo ''o/A'' [''x'', ''y'']" and ?B = "mk_repo ''o/B'' [''x'', ''y'']"
  have d: "distinct (map full_name abc_repos)" by (simp add: abc_repos_def mk_repo_def)
  have t: "\<forall>r\<in>set abc_repos. distinct (topics r)" by (simp add: abc_repos_def mk_repo_def)
  have l: "\<forall>tl\<in>set (topic_to_repos (init abc_repos)). length (snd tl) \<le> 8"
    by (simp add: abc_index)
  have "card (sharing_pairs abc_repos) \<le> 2 ^ length abc_repos" by (rule sharing_pairs_card_le)
  then have c: "card (sharing_pairs abc_repos) \<le> 1000" by (simp add: abc_repos_def)
  have m: "?A \<in> set abc_repos" "?B \<in> set abc_repos" "?A \<noteq> ?B"
    by (simp_all add: abc_repos_def mk_repo_def)
  have sh: "2 \<le> shared_topics ?A ?B"
    by (simp add: shared_topics_def mk_repo_def)
  obtain g where g: "build_full_graph (init abc_repos) = Inr g"
    "distinct (map full_name abc_repos) \<and> (\<forall>r\<in>set abc_repos. distinct (topics r))
          \<and> (\<forall>tl\<in>set (topic_to_repos (init abc_repos)). length (snd tl) \<le> 8)
          \<and> card (sharing_pairs abc_repos) \<le> 1000
        \<longrightarrow> (\<forall>a\<in>set abc_repos. \<forall>b\<in>set abc_repos. a \<noteq> b \<and> 2 \<le> shared_topics a b
              \<longrightarrow> has_edge g (full_name a) (full_name b))"
    using full_graph_complete_below_caps [of abc_repos] by (elim exE conjE)
  have "\<forall>a\<in>set abc_repos. \<forall>b\<in>set abc_repos. a \<noteq> b \<and> 2 \<le> shared_topics a b
              \<longrightarrow> has_edge g (full_name a) (full_name b)"
    using g(2) d t l c by (elim impE) (intro conjI)
  then have "has_edge g (full_name ?A) (full_name ?B)" using m sh by blast
  then have he: "has_edge g ''o/A'' ''o/B''" by (simp add: mk_repo_def)
  have tt: "distinct (topics ?A)" "distinct (topics ?B)" "distinct (topics (mk_repo ''o/C'' [''x'']))"
    by (simp_all add: mk_repo_def)
  show ?thesis using d tt abc_index c m sh g(1) he by (intro conjI exI [of _ g])
qed

section \<open>The cap and the repeated record\<close>

lemma member_name_inj: "member_name i = member_name j \<longleftrightarrow> i = j"
proof
  assume "member_name i = member_name j"
  then have "length (member_name i) = length (member_name j)" by simp
  then show "i = j" by (simp add: member_name_def)
qed simp

lemma member_name_not_loop: "member_name i \<noteq> ''o/A''"
proof
  assume "member_name i = ''o/A''"
  then have "CHR ''A'' \<in> set (member_name i)" by simp
  then show False by (auto simp: member_name_def)
qed

lemma group_topics_set_inter:
  "set (group_topics g) \<inter> set (group_topics h) = (if g = h then set (group_topics g) else {})"
proof -
  have "replicate g (CHR ''t'') = replicate h (CHR ''t'') \<Longrightarrow> g = h"
    using length_replicate by metis
  then show ?thesis by (auto simp: group_topics_def)
qed

lemma group_topics_card: "card (set (group_topics g)) = 2"
  by (simp add: group_topics_def)

lemma group_topics_distinct: "distinct (group_topics g)"
  by (simp add: group_topics_def)

lemma group_topics_not_loop: "set (group_topics g) \<inter> set [''x'', ''x'', ''y''] = {}"
  by (auto simp: group_topics_def)

lemma group_topics_same:
  assumes "t \<in> set (group_topics g)" "t \<in> set (group_topics h)"
  shows "g = h"
  using assms group_topics_set_inter [of g h] by (auto split: if_splits)

lemma member_repo_simps:
  "full_name (member_repo i) = member_name i"
  "topics (member_repo i) = group_topics (i div 5)"
  by (simp_all add: member_repo_def mk_repo_def)

lemma loop_repo_simps: "full_name loop_repo = ''o/A''" "topics loop_repo = [''x'', ''x'', ''y'']"
  by (simp_all add: loop_repo_def mk_repo_def)

lemma member_repo_inj: "member_repo i = member_repo j \<longleftrightarrow> i = j"
  using member_name_inj member_repo_simps(1) by metis

lemma member_repo_not_loop: "member_repo i \<noteq> loop_repo"
  using member_name_not_loop member_repo_simps(1) loop_repo_simps(1) by metis

lemma shared_members:
  "shared_topics (member_repo i) (member_repo j) = (if i div 5 = j div 5 then 2 else 0)"
  by (simp add: shared_topics_def member_repo_simps group_topics_set_inter group_topics_card)

lemma shared_loop_member: "shared_topics loop_repo (member_repo i) = 0"
  "shared_topics (member_repo i) loop_repo = 0"
  using group_topics_not_loop [of "i div 5"]
  by (simp_all add: shared_topics_def member_repo_simps loop_repo_simps Int_commute)

lemma shared_loop_loop: "shared_topics loop_repo loop_repo = 2"
  by (simp add: shared_topics_def loop_repo_simps)

lemma capped_names_distinct: "distinct (map full_name capped_repos)"
proof -
  have "distinct (map member_name [0..<member_count])"
    by (simp add: distinct_map inj_on_def member_name_inj)
  moreover have "''o/A'' \<notin> set (map member_name [0..<member_count])"
  proof
    assume "''o/A'' \<in> set (map member_name [0..<member_count])"
    then obtain i where "member_name i = ''o/A''" by auto
    then show False using member_name_not_loop by blast
  qed
  moreover have "map full_name capped_repos = ''o/A'' # map member_name [0..<member_count]"
    by (simp add: capped_repos_def loop_repo_simps member_repo_simps comp_def)
  ultimately show ?thesis by simp
qed

lemma capped_set: "set capped_repos = insert loop_repo (member_repo ` {0..<member_count})"
  by (simp add: capped_repos_def)


subsection \<open>Counting the pairs\<close>

lemma pairs_upt: "set (pairs [m..<n]) = {(j, k). m \<le> j \<and> j < k \<and> k < n}"
proof (induction "n - m" arbitrary: m)
  case 0
  then show ?case by auto
next
  case (Suc d)
  then have mn: "m < n" by simp
  then have up: "[m..<n] = m # [Suc m..<n]" by (rule upt_conv_Cons)
  have "d = n - Suc m" using Suc.hyps(2) by simp
  then have ih: "set (pairs [Suc m..<n]) = {(j, k). Suc m \<le> j \<and> j < k \<and> k < n}"
    by (rule Suc.hyps(1))
  show ?case unfolding up using ih by (auto simp: Suc_le_eq)
qed

lemma pairs_upt_5: "distinct (pairs [0..<5::nat]) \<and> length (pairs [0..<5::nat]) = 10"
  by code_simp

lemma group_pairs_card: "card group_pairs = 1000"
proof -
  have "card (set (pairs [0..<5::nat])) = 10"
    using pairs_upt_5 distinct_card [of "pairs [0..<5::nat]"] by simp
  then show ?thesis by (simp add: group_pairs_def card_cartesian_product)
qed

lemma group_pairs_mem: "(g, j, k) \<in> group_pairs \<longleftrightarrow> g < 100 \<and> j < k \<and> k < 5"
  by (auto simp: group_pairs_def pairs_upt)


lemma sharing_pairs_capped:
  "sharing_pairs capped_repos
     \<subseteq> (\<lambda>(g, j, k). {member_repo (5 * g + j), member_repo (5 * g + k)}) ` group_pairs"
proof
  fix S
  assume "S \<in> sharing_pairs capped_repos"
  then obtain a b where ab: "S = {a, b}" "a \<in> set capped_repos" "b \<in> set capped_repos"
    "a \<noteq> b" "2 \<le> shared_topics a b"
    unfolding sharing_pairs_def by blast
  have na: "a \<noteq> loop_repo"
  proof
    assume a: "a = loop_repo"
    then obtain i where "b = member_repo i" using ab(3,4) by (auto simp: capped_set)
    then show False using ab(5) a by (simp add: shared_loop_member)
  qed
  have nb: "b \<noteq> loop_repo"
  proof
    assume b: "b = loop_repo"
    then obtain i where "a = member_repo i" using ab(2,4) by (auto simp: capped_set)
    then show False using ab(5) b by (simp add: shared_loop_member)
  qed
  obtain i where i: "a = member_repo i" "i < member_count" using ab(2) na by (auto simp: capped_set)
  obtain i' where i': "b = member_repo i'" "i' < member_count" using ab(3) nb by (auto simp: capped_set)
  have ne: "i \<noteq> i'" using ab(4) i(1) i'(1) by auto
  have dv: "i div 5 = i' div 5"
    using ab(5) i(1) i'(1) by (simp add: shared_members split: if_splits)
  define lo where "lo = min i i'"
  define hi where "hi = max i i'"
  have lh: "lo < hi" "lo div 5 = hi div 5" "hi < member_count" "S = {member_repo lo, member_repo hi}"
    using ne dv i i' ab(1) by (auto simp: lo_def hi_def min_def max_def)
  have e1: "lo = 5 * (lo div 5) + lo mod 5" by simp
  have e2: "hi = 5 * (hi div 5) + hi mod 5" by simp
  have e3: "hi = 5 * (lo div 5) + hi mod 5" using e2 lh(2) by simp
  have m1: "lo mod 5 < hi mod 5" using e1 e3 lh(1) by linarith
  have m2: "hi mod 5 < 5" by simp
  have m3: "lo div 5 < 100" using lh(1,3) by (simp add: member_count_def)
  have mem: "(lo div 5, lo mod 5, hi mod 5) \<in> group_pairs"
    using m1 m2 m3 by (simp add: group_pairs_mem)
  have "S = (case (lo div 5, lo mod 5, hi mod 5) of
      (g, j, k) \<Rightarrow> {member_repo (5 * g + j), member_repo (5 * g + k)})"
    using lh(4) e1 e3 by simp
  then show "S \<in> (\<lambda>(g, j, k). {member_repo (5 * g + j), member_repo (5 * g + k)}) ` group_pairs"
    using mem by (rule image_eqI)
qed

lemma sharing_pairs_capped_card: "card (sharing_pairs capped_repos) \<le> 1000"
proof -
  have f: "finite group_pairs" by (simp add: group_pairs_def)
  have "card (sharing_pairs capped_repos)
      \<le> card ((\<lambda>(g, j, k). {member_repo (5 * g + j), member_repo (5 * g + k)}) ` group_pairs)"
    using sharing_pairs_capped f by (intro card_mono finite_imageI)
  also have "\<dots> \<le> card group_pairs" using f by (rule card_image_le)
  finally show ?thesis by (simp add: group_pairs_card)
qed

lemma has_edge_ends: "has_edge g u v \<Longrightarrow> {u, v} \<in> edge_ends ` set (edges g)"
proof -
  assume "has_edge g u v"
  then obtain e where e: "e \<in> set (edges g)" "fst e = (u, v) \<or> fst e = (v, u)"
    unfolding has_edge_def by auto
  then have "edge_ends e = {u, v}" by (auto simp: edge_ends_def)
  then show ?thesis using e(1) by (metis imageI)
qed

lemma group_ends_inj:
  "inj_on (\<lambda>(g, j, k). {member_name (5 * g + j), member_name (5 * g + k)}) group_pairs"
proof (rule inj_onI)
  fix p q
  assume p: "p \<in> group_pairs" and q: "q \<in> group_pairs"
    and eq: "(case p of (g, j, k) \<Rightarrow> {member_name (5 * g + j), member_name (5 * g + k)})
           = (case q of (g, j, k) \<Rightarrow> {member_name (5 * g + j), member_name (5 * g + k)})"
  obtain g j k where pp: "p = (g, j, k)" by (cases p)
  obtain g' j' k' where qq: "q = (g', j', k')" by (cases q)
  have a: "j < k" "k < 5" using p pp by (simp_all add: group_pairs_mem)
  have b: "j' < k'" "k' < 5" using q qq by (simp_all add: group_pairs_mem)
  have "(5 * g + j = 5 * g' + j' \<and> 5 * g + k = 5 * g' + k')
      \<or> (5 * g + j = 5 * g' + k' \<and> 5 * g + k = 5 * g' + j')"
    using eq pp qq by (simp add: doubleton_eq_iff member_name_inj)
  then consider (same) "5 * g + j = 5 * g' + j'" "5 * g + k = 5 * g' + k'"
    | (swap) "5 * g + j = 5 * g' + k'" "5 * g + k = 5 * g' + j'" by blast
  then have "g = g' \<and> j = j' \<and> k = k'"
  proof cases
    case same
    have "(5 * g + j) div 5 = (5 * g' + j') div 5" "(5 * g + j) mod 5 = (5 * g' + j') mod 5"
      "(5 * g + k) mod 5 = (5 * g' + k') mod 5"
      using same by simp_all
    then show ?thesis using a b by simp
  next
    case swap
    have "(5 * g + j) mod 5 = (5 * g' + k') mod 5" "(5 * g + k) mod 5 = (5 * g' + j') mod 5"
      using swap by simp_all
    then have "j = k'" "k = j'" using a b by simp_all
    then show ?thesis using a b by simp
  qed
  then show "p = q" using pp qq by simp
qed

text \<open>
  A graph with the self-loop and with an edge for each of the 1000 pairs has more than
  1000 edges.
\<close>

lemma too_many_edges:
  assumes all: "\<forall>p\<in>group_pairs. has_edge g (member_name (5 * fst p + fst (snd p)))
                  (member_name (5 * fst p + snd (snd p)))"
    and self: "has_edge g ''o/A'' ''o/A''"
  shows "1001 \<le> length (edges g)"
proof -
  define f where "f = (\<lambda>(g, j, k). {member_name (5 * g + j), member_name (5 * g + k)})"
  define E where "E = f ` group_pairs"
  define D where "D = edge_ends ` set (edges g)"
  have fp: "f p = {member_name (5 * fst p + fst (snd p)), member_name (5 * fst p + snd (snd p))}"
    for p by (simp add: f_def case_prod_beta)
  have fg: "finite group_pairs" by (simp add: group_pairs_def)
  have fin: "finite E" unfolding E_def using fg by (rule finite_imageI)
  have inj: "inj_on f group_pairs" unfolding f_def by (rule group_ends_inj)
  have cE: "card E = 1000" unfolding E_def using card_image [OF inj] group_pairs_card by simp
  have sub: "E \<subseteq> D"
  proof
    fix S
    assume "S \<in> E"
    then obtain p where p: "p \<in> group_pairs" "S = f p" unfolding E_def by (rule imageE)
    have "has_edge g (member_name (5 * fst p + fst (snd p))) (member_name (5 * fst p + snd (snd p)))"
      using all p(1) by (rule bspec)
    then have "f p \<in> D" unfolding D_def fp by (rule has_edge_ends)
    then show "S \<in> D" using p(2) by simp
  qed
  have "{''o/A'', ''o/A''} \<in> D" unfolding D_def using self by (rule has_edge_ends)
  then have s1: "{''o/A''} \<in> D" by simp
  have s2: "{''o/A''} \<notin> E"
  proof
    assume "{''o/A''} \<in> E"
    then obtain p where p: "p \<in> group_pairs" "{''o/A''} = f p" unfolding E_def by (rule imageE)
    have "member_name (5 * fst p + fst (snd p)) \<in> f p" unfolding fp by simp
    then have "member_name (5 * fst p + fst (snd p)) = ''o/A''" using p(2) by blast
    then show False using member_name_not_loop by blast
  qed
  have c1: "card (insert {''o/A''} E) = Suc (card E)" using fin s2 by (rule card_insert_disjoint)
  have fD: "finite D" unfolding D_def by simp
  have "insert {''o/A''} E \<subseteq> D" using sub s1 by blast
  then have "card (insert {''o/A''} E) \<le> card D" using fD by (intro card_mono)
  then have "1001 \<le> card D" using c1 cE by simp
  also have "\<dots> \<le> card (set (edges g))" unfolding D_def by (intro card_image_le) simp
  also have "\<dots> \<le> length (edges g)" by (rule card_length)
  finally show ?thesis .
qed


subsection \<open>The lists of the index stay short\<close>

lemma length_concat_replicate:
  "length (concat (map (\<lambda>r. replicate (c r) (f r)) rs)) = sum_list (map c rs)"
  by (induction rs) simp_all

lemma sum_list_indicator:
  "sum_list (map (\<lambda>x. if P x then 1 else 0) xs) = length (filter P xs)"
  by (induction xs) simp_all

lemma group_hits: "length (filter (\<lambda>i. t \<in> set (group_topics (i div 5))) [0..<n]) \<le> 5"
proof (cases "\<exists>i. t \<in> set (group_topics (i div 5))")
  case False
  then have "filter (\<lambda>i. t \<in> set (group_topics (i div 5))) [0..<n] = []" by simp
  then show ?thesis by simp
next
  case True
  then obtain i0 where i0: "t \<in> set (group_topics (i0 div 5))" by blast
  define g where "g = i0 div 5"
  have same: "i div 5 = g" if "t \<in> set (group_topics (i div 5))" for i
    using group_topics_same [OF that i0] by (simp add: g_def)
  have "set (filter (\<lambda>i. t \<in> set (group_topics (i div 5))) [0..<n]) \<subseteq> {5 * g..<5 * g + 5}"
  proof
    fix i
    assume "i \<in> set (filter (\<lambda>i. t \<in> set (group_topics (i div 5))) [0..<n])"
    then have "i div 5 = g" using same by simp
    then have "5 * g \<le> i" "i < 5 * g + 5" by auto
    then show "i \<in> {5 * g..<5 * g + 5}" by simp
  qed
  then have "card (set (filter (\<lambda>i. t \<in> set (group_topics (i div 5))) [0..<n]))
      \<le> card {5 * g..<5 * g + 5}" by (intro card_mono) simp
  then have c: "card (set (filter (\<lambda>i. t \<in> set (group_topics (i div 5))) [0..<n])) \<le> 5"
    by simp
  have "distinct (filter (\<lambda>i. t \<in> set (group_topics (i div 5))) [0..<n])" by simp
  then have "card (set (filter (\<lambda>i. t \<in> set (group_topics (i div 5))) [0..<n]))
      = length (filter (\<lambda>i. t \<in> set (group_topics (i div 5))) [0..<n])"
    by (rule distinct_card)
  then show ?thesis using c by linarith
qed

lemma capped_index_lengths:
  "\<forall>tl\<in>set (topic_to_repos (init capped_repos)). length (snd tl) \<le> 8"
proof
  fix tl
  assume tl: "tl \<in> set (topic_to_repos (init capped_repos))"
  obtain t l where e: "tl = (t, l)" by (cases tl)
  have "(t, l) \<in> set (build_topic_mapping capped_repos)" using tl e by (simp add: init_def)
  then have "l = get_repos (build_topic_mapping capped_repos) t"
    by (simp add: index_entry_get_repos)
  then have "length l = sum_list (map (\<lambda>r. count_list (topics r) t) capped_repos)"
    by (simp add: get_repos_build length_concat_replicate)
  also have "\<dots> = count_list [''x'', ''x'', ''y''] t
      + sum_list (map (\<lambda>i. count_list (group_topics (i div 5)) t) [0..<member_count])"
    by (simp add: capped_repos_def loop_repo_simps member_repo_simps comp_def)
  also have "sum_list (map (\<lambda>i. count_list (group_topics (i div 5)) t) [0..<member_count])
      = sum_list (map (\<lambda>i. if t \<in> set (group_topics (i div 5)) then 1 else 0) [0..<member_count])"
    by (simp add: count_list_distinct group_topics_distinct)
  also have "\<dots> = length (filter (\<lambda>i. t \<in> set (group_topics (i div 5))) [0..<member_count])"
    by (rule sum_list_indicator)
  finally have "length l = count_list [''x'', ''x'', ''y''] t
      + length (filter (\<lambda>i. t \<in> set (group_topics (i div 5))) [0..<member_count])" .
  moreover have "count_list [''x'', ''x'', ''y''] t \<le> length [''x'', ''x'', ''y'']"
    by (rule count_le_length)
  ultimately have "length l \<le> 8" using group_hits [of t member_count] by simp
  then show "length (snd tl) \<le> 8" using e by simp
qed

subsection \<open>The first pair is the repeated record with itself\<close>

lemma append_repo_head: "\<exists>v' m'. append_repo ((k, v) # m) t n = (k, v') # m'"
  by simp

lemma fold_append_head:
  "\<exists>v' m'. fold (\<lambda>t m'. append_repo m' t nm) ts ((k, v) # m) = (k, v') # m'"
proof (induction ts arbitrary: v m)
  case Nil
  then show ?case by simp
next
  case (Cons t ts)
  obtain v1 m1 where "append_repo ((k, v) # m) t nm = (k, v1) # m1"
    using append_repo_head by blast
  then show ?case using Cons.IH [of v1 m1] by simp
qed

lemma fold_add_head: "\<exists>v' m'. fold add_repo_topics rs ((k, v) # m) = (k, v') # m'"
proof (induction rs arbitrary: v m)
  case Nil
  then show ?case by simp
next
  case (Cons r rs)
  obtain v1 m1 where "add_repo_topics r ((k, v) # m) = (k, v1) # m1"
    unfolding add_repo_topics_def using fold_append_head by blast
  then show ?case using Cons.IH [of v1 m1] by simp
qed

lemma capped_index_head:
  "\<exists>tm'. topic_to_repos (init capped_repos) = (''x'', [''o/A'', ''o/A'']) # tm'"
proof -
  have "add_repo_topics loop_repo [] = [(''x'', [''o/A'', ''o/A'']), (''y'', [''o/A''])]"
    by (simp add: add_repo_topics_def loop_repo_simps)
  then have "build_topic_mapping capped_repos
      = fold add_repo_topics (map member_repo [0..<member_count])
          ((''x'', [''o/A'', ''o/A'']) # [(''y'', [''o/A''])])"
    by (simp add: build_topic_mapping_def capped_repos_def)
  then obtain l tm' where h: "build_topic_mapping capped_repos = (''x'', l) # tm'"
    using fold_add_head by metis
  then have "l = get_repos (build_topic_mapping capped_repos) ''x''" by (simp add: get_repos_def)
  also have "\<dots> = replicate 2 ''o/A''
      @ concat (map (\<lambda>i. replicate (count_list (group_topics (i div 5)) ''x'') (member_name i))
          [0..<member_count])"
    by (simp add: get_repos_build capped_repos_def loop_repo_simps member_repo_simps comp_def
        numeral_2_eq_2)
  also have "\<dots> = [''o/A'', ''o/A'']"
  proof -
    have "count_list (group_topics g) ''x'' = 0" for g
      using group_topics_not_loop [of g] by (simp add: count_list_0_iff)
    then show ?thesis by (simp add: numeral_2_eq_2)
  qed
  finally show ?thesis using h by (simp add: init_def)
qed

lemma capped_self_loop:
  assumes "build_full_state (init capped_repos) = Inr s"
  shows "(''o/A'', ''o/A'') \<in> set (added_edges s)"
proof -
  let ?rm = "repo_map (init capped_repos)"
  let ?s0 = "\<lparr>G = add_all_nodes (repo_data (init capped_repos)), added_edges = [],
      edge_count = 0, evaluated = []\<rparr>"
  obtain tm' where tm: "topic_to_repos (init capped_repos) = (''x'', [''o/A'', ''o/A'']) # tm'"
    using capped_index_head by blast
  have "loop_repo \<in> set capped_repos" by (simp add: capped_repos_def)
  then have "build_repo_map capped_repos (full_name loop_repo) = Some loop_repo"
    by (rule build_repo_map_unique [OF capped_names_distinct])
  then have rm: "?rm ''o/A'' = Some loop_repo" by (simp add: init_def loop_repo_simps)
  define u where "u = ?s0\<lparr>evaluated := [(''x'', (''o/A'', ''o/A''))],
      G := add_edge (G ?s0) ''o/A'' ''o/A'' 2,
      added_edges := [(''o/A'', ''o/A'')], edge_count := 1\<rparr>"
  have tp: "try_pair ?rm ''x'' ''o/A'' ''o/A'' ?s0 = Inr u"
    by (simp add: try_pair_def edge_key_def rm shared_loop_loop Let_def u_def)
  have ec: "edge_count u = 1" "added_edges u = [(''o/A'', ''o/A'')]" by (simp_all add: u_def)
  have il: "inner_loop ?rm ''x'' ''o/A'' [''o/A''] ?s0 = Inr u"
    using tp by (simp add: max_edges_def)
  have ol: "outer_loop ?rm ''x'' [''o/A'', ''o/A''] ?s0 = Inr u"
    using il ec by (simp add: max_edges_def)
  have "topic_loop ?rm ((''x'', [''o/A'', ''o/A'']) # tm') ?s0 = Inr s"
    using assms tm by (simp add: build_full_state_def)
  then have "topic_loop ?rm tm' u = Inr s" using ol by (simp add: Let_def)
  then have "later u s" by (rule topic_loop_later)
  then show ?thesis using ec(2) by (auto simp: later_def)
qed

text \<open>
  Claim C5, as stated, fails in its converse half. The names of the records are
  unique, no topic lists more than 8 records and no more than 1000 pairs of records
  share two topics or more, yet one of these pairs has no edge. The first record names
  a topic twice, so it is indexed twice and the first pair of the first topic is this
  record with itself: its self-loop takes one of the 1000 places. The 500 other
  records form 100 groups of 5 with two topics each, which makes 1000 pairs that share
  two topics.
\<close>

theorem cap_engaged_by_self_loop:
  "\<exists>g. build_full_graph (init capped_repos) = Inr g
     \<and> (\<forall>tl\<in>set (topic_to_repos (init capped_repos)). length (snd tl) \<le> 8)
     \<and> card (sharing_pairs capped_repos) \<le> 1000
     \<and> (\<exists>a\<in>set capped_repos. \<exists>b\<in>set capped_repos. a \<noteq> b \<and> 2 \<le> shared_topics a b
           \<and> \<not> has_edge g (full_name a) (full_name b))"
proof -
  let ?rm = "repo_map (init capped_repos)" and ?tm = "topic_to_repos (init capped_repos)"
  obtain s where s: "build_full_state (init capped_repos) = Inr s" "full_inv ?rm ?tm s"
    using full_inv_final by blast
  have g: "build_full_graph (init capped_repos) = Inr (G s)" using build_full_graph_G [OF s(1)] .
  have len: "length (edges (G s)) \<le> 1000"
    using s(2) by (simp add: full_inv_def max_edges_def)
  have he: "\<forall>k\<in>set (added_edges s). has_edge (G s) (fst k) (snd k)"
    using s(2) unfolding full_inv_def by blast
  have self: "has_edge (G s) ''o/A'' ''o/A''"
    using he capped_self_loop [OF s(1)] by fastforce
  have miss: "\<exists>a\<in>set capped_repos. \<exists>b\<in>set capped_repos. a \<noteq> b \<and> 2 \<le> shared_topics a b
           \<and> \<not> has_edge (G s) (full_name a) (full_name b)"
  proof (rule ccontr)
    assume no: "\<not> ?thesis"
    have "\<forall>p\<in>group_pairs. has_edge (G s) (member_name (5 * fst p + fst (snd p)))
                  (member_name (5 * fst p + snd (snd p)))"
    proof
      fix p
      assume p: "p \<in> group_pairs"
      obtain gr j k where e: "p = (gr, j, k)" by (cases p)
      have b: "gr < 100" "j < k" "k < 5" using p e by (simp_all add: group_pairs_mem)
      let ?a = "member_repo (5 * gr + j)" and ?b = "member_repo (5 * gr + k)"
      have ia: "?a \<in> set capped_repos" "?b \<in> set capped_repos"
        using b by (simp_all add: capped_set member_count_def)
      have ne: "?a \<noteq> ?b" using b by (simp add: member_repo_inj)
      have "(5 * gr + j) div 5 = (5 * gr + k) div 5" using b by simp
      then have sh: "2 \<le> shared_topics ?a ?b" by (simp add: shared_members)
      have "has_edge (G s) (full_name ?a) (full_name ?b)" using no ia ne sh by blast
      then show "has_edge (G s) (member_name (5 * fst p + fst (snd p)))
                  (member_name (5 * fst p + snd (snd p)))"
        using e by (simp add: member_repo_simps)
    qed
    then have "1001 \<le> length (edges (G s))" using self by (rule too_many_edges)
    then show False using len by simp
  qed
  show ?thesis using g capped_index_lengths sharing_pairs_capped_card miss
    by (intro exI [of _ "G s"] conjI)
qed

section \<open>Rounding to a double\<close>

lemma round_half_even_of_int: "round_half_even (of_int k) = k"
  by (simp add: round_half_even_def Let_def)
















lemma fl_of_int:
  assumes "0 \<le> n" "n < 2 ^ 53"
  shows "fl (of_int n) = of_int n"
proof (cases "n = 0")
  case True
  then show ?thesis by (simp add: fl_def)
next
  case False
  then have n: "0 < n" using assms by simp
  define b where "b = bitlen n - 1"
  have b0: "0 \<le> b" using n bitlen_eq_zero_iff [of n] bitlen_nonneg [of n] by (simp add: b_def)
  have "bitlen n \<le> 53" using assms(2) by (simp add: bitlen_le_iff_power)
  then have b52: "b \<le> 52" by (simp add: b_def)
  define k where "k = nat (52 - b)"
  have "binade \<bar>of_int n\<bar> = b" using n by (simp add: binade_def b_def)
  then have "ulp (of_int n) = 2 powi (b - 52)" using b0 by (simp add: ulp_def max_def)
  also have "b - 52 = - int k" using b52 by (simp add: k_def)
  also have "(2::rat) powi (- int k) = 1 / 2 ^ k" by (simp add: power_int_minus_divide)
  finally have u: "ulp (of_int n) = 1 / 2 ^ k" .
  have "of_int n / ulp (of_int n) = (of_int (n * 2 ^ k) :: rat)" by (simp add: u)
  then have "round_half_even (of_int n / ulp (of_int n)) = n * 2 ^ k"
    by (simp only: round_half_even_of_int)
  then show ?thesis using False by (simp add: fl_def u)
qed



section \<open>Properties of the activity score\<close>

lemma not_overflows_small: "\<bar>x\<bar> \<le> 2 ^ 53 \<Longrightarrow> \<not> overflows x"
  by (simp add: overflows_def overflow_threshold_def)



lemma to_double_number:
  assumes "is_number a" "0 \<le> num a" "num a < 2 ^ 53"
  shows "to_double a = Inr (Finite (num a))"
proof (cases a)
  case (PyInt n)
  then have n: "0 \<le> n" "n < 2 ^ 53" using assms by simp_all
  then have "(of_int n :: rat) \<le> 2 ^ 53" by simp
  then have "\<not> overflows (of_int n)" using n(1) by (intro not_overflows_small) simp
  then show ?thesis using PyInt fl_of_int [OF n] by (simp add: to_double_def int_to_double_def)
next
  case (PyFloat x)
  then show ?thesis using assms by (cases x) (simp_all add: to_double_def)
qed

















lemma fl_0: "fl 0 = 0"
  by (simp add: fl_def)

lemma overflows_0: "\<not> overflows 0"
  by (simp add: overflows_def overflow_threshold_def)

lemma int_to_double_small:
  assumes "0 \<le> n" "n < 2 ^ 53"
  shows "int_to_double n = Inr (Finite (of_int n))"
  using to_double_number [of "PyInt n"] assms by (simp add: to_double_def)

lemma capped_score_zero:
  assumes "d \<noteq> 0" "0 \<le> w" "w < 2 ^ 53"
  shows "capped_score 0 d w = Inr (PyFloat (Finite 0))"
  using assms int_to_double_small [OF assms(2,3)]
  by (simp add: capped_score_def int_truediv_def and_then_def py_min_def float_op_def
      to_double_def round_double_def fl_0 overflows_0)

lemma capped_score0_zero:
  assumes "d \<noteq> 0" "0 \<le> w" "w < 2 ^ 53"
  shows "capped_score0 0 d w = Inr (PyFloat (Finite 0))"
  using assms int_to_double_small [OF assms(2,3)]
  by (simp add: capped_score0_def int_truediv_def and_then_def py_min_def py_max_def float_op_def
      to_double_def round_double_def fl_0 overflows_0)









lemma py_mul_error: "py_mul a b = Inl e \<Longrightarrow> e = OverflowError"
  by (cases a; cases b)
    (auto simp: float_op_def to_double_def int_to_double_def split: sum.splits if_splits)

lemma capped_score_cases:
  assumes "d \<noteq> 0"
  shows "capped_score n d w = Inl OverflowError \<or> (\<exists>v. capped_score n d w = Inr v)"
proof (cases "capped_score n d w")
  case (Inl e)
  then have "e = OverflowError"
    using assms py_mul_error
    by (auto simp: capped_score_def and_then_def int_truediv_def split: if_splits)
  then show ?thesis using Inl by simp
next
  case (Inr v)
  then show ?thesis by simp
qed

lemma capped_score0_cases:
  assumes "d \<noteq> 0"
  shows "capped_score0 n d w = Inl OverflowError \<or> (\<exists>v. capped_score0 n d w = Inr v)"
proof (cases "capped_score0 n d w")
  case (Inl e)
  then have "e = OverflowError"
    using assms py_mul_error
    by (auto simp: capped_score0_def and_then_def int_truediv_def split: if_splits)
  then show ?thesis using Inl by simp
next
  case (Inr v)
  then show ?thesis by simp
qed

lemma capped_score_overflow:
  "d \<noteq> 0 \<Longrightarrow> overflows (of_int n / of_int d) \<Longrightarrow> capped_score n d w = Inl OverflowError"
  by (simp add: capped_score_def and_then_def int_truediv_def)

lemma capped_score0_overflow:
  "d \<noteq> 0 \<Longrightarrow> overflows (of_int n / of_int d) \<Longrightarrow> capped_score0 n d w = Inl OverflowError"
  by (simp add: capped_score0_def and_then_def int_truediv_def)

text \<open>
  The condition on the quotients is needed: whenever one of the four is out of the
  range of a float, the function raises \<^verbatim>\<open>OverflowError\<close>.
\<close>

lemma quotient_overflow_raises:
  assumes "overflows (of_int (get0 d ''commits_total'') / 1000)
    \<or> overflows (of_int (get0 d ''prs_merged'') / 100)
    \<or> overflows (of_int (get0 d ''issues_closed'' - get0 d ''issues_open'') / 50)
    \<or> overflows (of_int (get0 d ''contributors_total'') / 100)"
  shows "calculate_activity_score d = Inl OverflowError"
proof -
  let ?c = "get0 d ''commits_total''" and ?p = "get0 d ''prs_merged''"
  let ?i = "get0 d ''issues_closed'' - get0 d ''issues_open''"
  let ?n = "get0 d ''contributors_total''"
  have c: "capped_score ?c 1000 40 = Inl OverflowError \<or> (\<exists>v. capped_score ?c 1000 40 = Inr v)"
    by (rule capped_score_cases) simp
  have p: "capped_score ?p 100 20 = Inl OverflowError \<or> (\<exists>v. capped_score ?p 100 20 = Inr v)"
    by (rule capped_score_cases) simp
  have i: "capped_score0 ?i 50 20 = Inl OverflowError \<or> (\<exists>v. capped_score0 ?i 50 20 = Inr v)"
    by (rule capped_score0_cases) simp
  have oc: "overflows (of_int ?c / 1000) \<Longrightarrow> capped_score ?c 1000 40 = Inl OverflowError"
    using capped_score_overflow [of 1000 ?c 40] by simp
  have op: "overflows (of_int ?p / 100) \<Longrightarrow> capped_score ?p 100 20 = Inl OverflowError"
    using capped_score_overflow [of 100 ?p 20] by simp
  have oi: "overflows (of_int ?i / 50) \<Longrightarrow> capped_score0 ?i 50 20 = Inl OverflowError"
    using capped_score0_overflow [of 50 ?i 20] by simp
  have on: "overflows (of_int ?n / 100) \<Longrightarrow> capped_score ?n 100 20 = Inl OverflowError"
    using capped_score_overflow [of 100 ?n 20] by simp
  show ?thesis
  proof (cases "capped_score ?c 1000 40 = Inl OverflowError")
    case True
    then show ?thesis by (simp add: calculate_activity_score_def Let_def and_then_def)
  next
    case c1: False
    then obtain v1 where v1: "capped_score ?c 1000 40 = Inr v1" using c by blast
    show ?thesis
    proof (cases "capped_score ?p 100 20 = Inl OverflowError")
      case True
      then show ?thesis using v1 by (simp add: calculate_activity_score_def Let_def and_then_def)
    next
      case p1: False
      then obtain v2 where v2: "capped_score ?p 100 20 = Inr v2" using p by blast
      show ?thesis
      proof (cases "capped_score0 ?i 50 20 = Inl OverflowError")
        case True
        then show ?thesis using v1 v2
          by (simp add: calculate_activity_score_def Let_def and_then_def)
      next
        case i1: False
        then obtain v3 where v3: "capped_score0 ?i 50 20 = Inr v3" using i by blast
        have "capped_score ?n 100 20 = Inl OverflowError" using assms c1 p1 i1 oc op oi on by blast
        then show ?thesis using v1 v2 v3
          by (simp add: calculate_activity_score_def Let_def and_then_def)
      qed
    qed
  qed
qed

lemma fl_m1: "fl (- 1) = - 1"
  by code_simp

lemma fl_m40: "fl (- 40) = - 40"
  by code_simp

text \<open>
  The counts must not be negative: a negative \<^verbatim>\<open>commits_total\<close> passes through
  \<^verbatim>\<open>min\<close> and gives a negative score.
\<close>

lemma negative_count_negative_score:
  "calculate_activity_score [''commits_total'' \<mapsto> - 1000] = Inr (PyFloat (Finite (- 40)))"
proof -
  have o: "\<not> overflows (- 1)" "\<not> overflows (- 40)" "\<not> overflows 0"
    by (simp_all add: overflows_def overflow_threshold_def)
  have t: "int_truediv (- 1000) 1000 = Inr (PyFloat (Finite (- 1)))"
    using o(1) fl_m1 by (simp add: int_truediv_def)
  have i40: "int_to_double 40 = Inr (Finite 40)" using int_to_double_small [of 40] by simp
  have c: "capped_score (- 1000) 1000 40 = Inr (PyFloat (Finite (- 40)))"
    using o(2) fl_m40 i40
    by (simp add: capped_score_def and_then_def t py_min_def float_op_def to_double_def
        round_double_def)
  have r: "round_half_even (- 4000) = - 4000" using round_half_even_of_int [of "- 4000"] by simp
  show ?thesis
    using c o fl_m40 r
    by (simp add: calculate_activity_score_def get0_def and_then_def capped_score_zero
        capped_score0_zero float_op_def to_double_def round_double_def)
qed

end
